theory Spec2Isabelle
  imports Complex_Main "HOL-Library.Log_Nat"
begin

section \<open>Strings of the scanner program\<close>

text \<open>
  The program is Python; its strings are sequences of code points. A string is modelled
  as a \<^typ>\<open>string\<close> in which every \<^typ>\<open>char\<close> stands for one code point in the
  range 0..255, so \<^const>\<open>length\<close> counts what Python's \<open>len\<close> counts. Barcode scans
  are ASCII; code points above 255 are outside the model.
\<close>

definition isspace :: "char \<Rightarrow> bool" where
  \<comment> \<open>\<open>str.isspace\<close> on one code point below 256: TAB, LF, VT, FF, CR, FS, GS, RS, US,
      SPACE, NEL (0x85) and NBSP (0xA0).\<close>
  "isspace c = (of_char c \<in> {9, 10, 11, 12, 13, 28, 29, 30, 31, 32, 133, 160 :: nat})"

definition isdigit :: "char \<Rightarrow> bool" where
  \<comment> \<open>The class \<open>\d\<close> of \<open>re\<close> and the digits of \<open>int\<close> and \<open>float\<close>:
      below code point 256 these are exactly the ASCII digits.\<close>
  "isdigit c = (c \<in> set ''0123456789'')"

definition strip :: "string \<Rightarrow> string" where
  \<comment> \<open>\<open>s.strip()\<close>: remove leading and trailing whitespace.\<close>
  "strip s = rev (dropWhile isspace (rev (dropWhile isspace s)))"

definition isspace_num :: "char \<Rightarrow> bool" where
  \<comment> \<open>The whitespace that \<open>int\<close> and \<open>float\<close> skip around a literal: the separators
      FS, GS, RS and US are not part of it.\<close>
  "isspace_num c = (of_char c \<in> {9, 10, 11, 12, 13, 32, 133, 160 :: nat})"

definition strip_num :: "string \<Rightarrow> string" where
  "strip_num s = rev (dropWhile isspace_num (rev (dropWhile isspace_num s)))"

definition slice :: "nat \<Rightarrow> nat \<Rightarrow> 'a list \<Rightarrow> 'a list" where
  \<comment> \<open>\<open>s[i:j]\<close> for non-negative \<open>i\<close> and \<open>j\<close>; out-of-range bounds are clipped.\<close>
  "slice i j s = take (j - i) (drop i s)"

definition startswith :: "string \<Rightarrow> string \<Rightarrow> bool" where
  "startswith s p = (take (length p) s = p)"

section \<open>Weight decoding: \<open>formater_ligne\<close>\<close>

definition formats_map :: "(string \<times> (string \<Rightarrow> string option)) list" where
  \<comment> \<open>The dictionary of lambdas, in source order; the keys are distinct.\<close>
  "formats_map =
    [(''3100'', \<lambda>n. Some n),
     (''3101'', \<lambda>n. if length n > 5 then Some (take 5 n @ '','' @ drop 5 n) else None),
     (''3102'', \<lambda>n. if length n > 4 then Some (take 4 n @ '','' @ drop 4 n) else None),
     (''3103'', \<lambda>n. if length n > 3 then Some (take 3 n @ '','' @ drop 3 n) else None),
     (''3104'', \<lambda>n. if length n > 2 then Some (take 2 n @ '','' @ drop 2 n) else None),
     (''3105'', \<lambda>n. if length n > 1 then Some (take 1 n @ '','' @ drop 1 n) else None)]"

fun formater_ligne :: "string option \<Rightarrow> string option" where
  \<comment> \<open>The argument is \<open>None\<close> for Python's \<open>None\<close>; the result \<open>None\<close> is "no match".\<close>
  "formater_ligne None = None"
| "formater_ligne (Some ligne) =
    (let chaine = strip ligne in
     if length chaine = 13 then
       (let extrait = slice 7 12 chaine in
        if length extrait \<ge> 5 then Some (slice 0 2 extrait @ '','' @ drop 2 extrait)
        else None)
     else if length chaine < 26 then None
     else
       (let sous_chaine = slice 16 26 chaine in
        if \<not> startswith sous_chaine ''310'' then None
        else
          (let prefixe = slice 0 4 sous_chaine;
               nombre = drop 4 sous_chaine
           in case map_of formats_map prefixe of
                None \<Rightarrow> None
              | Some fonction_fmt \<Rightarrow> fonction_fmt nombre)))"

section \<open>Expiry decoding: \<open>extraire_dlc_from_scan\<close>\<close>

definition match_at :: "string \<Rightarrow> string option" where
  \<comment> \<open>The pattern \<open>15(\d{6})\<close> anchored at the start of \<open>s\<close>; the result is group 1.\<close>
  "match_at s =
     (if startswith s ''15'' \<and> length (slice 2 8 s) = 6 \<and> list_all isdigit (slice 2 8 s)
      then Some (slice 2 8 s) else None)"

fun re_search :: "string \<Rightarrow> string option" where
  \<comment> \<open>\<open>re.search(r"15(\d{6})", s)\<close>: the leftmost position where the pattern matches.\<close>
  "re_search [] = None"
| "re_search (c # cs) =
     (case match_at (c # cs) of Some g \<Rightarrow> Some g | None \<Rightarrow> re_search cs)"

definition digit_val :: "char \<Rightarrow> int" where
  "digit_val c = of_char c - 48"

definition int_of_digits :: "string \<Rightarrow> int" where
  \<comment> \<open>The value of a string of decimal digits.\<close>
  "int_of_digits ds = foldl (\<lambda>a c. 10 * a + digit_val c) 0 ds"

fun digitpart :: "string \<Rightarrow> bool" where
  \<comment> \<open>Digits with single underscores between them, as \<open>int\<close> and \<open>float\<close> accept.\<close>
  "digitpart [] = False"
| "digitpart [c] = isdigit c"
| "digitpart (c # d # cs) =
     (isdigit c \<and> (if d = CHR ''_'' then digitpart cs else digitpart (d # cs)))"

definition py_int :: "string \<Rightarrow> int option" where
  \<comment> \<open>\<open>int(s)\<close> in base 10; \<open>None\<close> stands for the \<open>ValueError\<close>.\<close>
  "py_int s =
     (let t = strip_num s;
          neg = (t \<noteq> [] \<and> hd t = CHR ''-'');
          u = (if t \<noteq> [] \<and> (hd t = CHR ''-'' \<or> hd t = CHR ''+'') then tl t else t)
      in if digitpart u
         then Some ((if neg then - 1 else 1) * int_of_digits (filter (\<lambda>c. c \<noteq> CHR ''_'') u))
         else None)"

record date =
  year :: int
  month :: int
  day :: int

definition is_leap :: "int \<Rightarrow> bool" where
  "is_leap y = (y mod 4 = 0 \<and> (y mod 100 \<noteq> 0 \<or> y mod 400 = 0))"

definition days_in_month :: "int \<Rightarrow> int \<Rightarrow> int" where
  \<comment> \<open>Only called with \<open>1 \<le> m \<le> 12\<close>.\<close>
  "days_in_month y m =
     (if m = 2 \<and> is_leap y then 29
      else [31, 28, 31, 30, 31, 30, 31, 31, 30, 31, 30, 31] ! nat (m - 1))"

definition datetime :: "int \<Rightarrow> int \<Rightarrow> int \<Rightarrow> date option" where
  \<comment> \<open>\<open>datetime(y, m, d)\<close>; \<open>None\<close> stands for the \<open>ValueError\<close> of an out-of-range field.\<close>
  "datetime y m d =
     (if \<not> (1 \<le> y \<and> y \<le> 9999) then None
      else if \<not> (1 \<le> m \<and> m \<le> 12) then None
      else if \<not> (1 \<le> d \<and> d \<le> days_in_month y m) then None
      else Some \<lparr>year = y, month = m, day = d\<rparr>)"

fun str_nat :: "nat \<Rightarrow> string" where
  \<comment> \<open>Decimal digits of a natural number.\<close>
  "str_nat n =
     (if n < 10 then [''0123456789'' ! n]
      else str_nat (n div 10) @ [''0123456789'' ! (n mod 10)])"

declare str_nat.simps [simp del]

definition format_0d :: "nat \<Rightarrow> int \<Rightarrow> string" where
  \<comment> \<open>The format spec \<open>0wd\<close>: zero-padded to width \<open>w\<close>, the sign first.\<close>
  "format_0d w v =
     (if v < 0
      then CHR ''-'' # replicate (w - 1 - length (str_nat (nat (- v)))) CHR ''0'' @ str_nat (nat (- v))
      else replicate (w - length (str_nat (nat v))) CHR ''0'' @ str_nat (nat v))"

definition dlc_of_yymmjj :: "string \<Rightarrow> string option" where
  \<comment> \<open>The \<open>try\<close> block on the matched group and the final \<open>return\<close>; every exception
      of the block becomes \<open>None\<close>.\<close>
  "dlc_of_yymmjj yymmjj =
     (case py_int (slice 0 2 yymmjj) of
        None \<Rightarrow> None
      | Some aa \<Rightarrow>
          (case py_int (slice 2 4 yymmjj) of
             None \<Rightarrow> None
           | Some mois \<Rightarrow>
               (case py_int (slice 4 6 yymmjj) of
                  None \<Rightarrow> None
                | Some jour \<Rightarrow>
                    (let annee = 2000 + aa
                     in case datetime annee mois jour of
                          None \<Rightarrow> None
                        | Some date_obj \<Rightarrow>
                            Some (format_0d 2 (day date_obj) @ ''/'' @
                                  format_0d 2 (month date_obj) @ ''/'' @
                                  format_0d 4 (year date_obj))))))"

fun extraire_dlc_from_scan :: "string option \<Rightarrow> string option" where
  "extraire_dlc_from_scan None = None"
| "extraire_dlc_from_scan (Some texte) =
    (let texte_nettoye = strip texte in
     if length texte_nettoye \<le> 26 then None
     else
       (let reste = drop 26 texte_nettoye in
        case re_search reste of
          None \<Rightarrow> None
        | Some yymmjj \<Rightarrow> dlc_of_yymmjj yymmjj))"

definition occurs_at :: "string \<Rightarrow> nat \<Rightarrow> bool" where
  \<comment> \<open>Stated from the specification's words, for comparison with \<^const>\<open>re_search\<close>:
      at position \<open>i\<close> the text has the characters 15 followed by six digits.\<close>
  "occurs_at s i =
     (i + 8 \<le> length s \<and> slice i (i + 2) s = ''15'' \<and>
      list_all isdigit (slice (i + 2) (i + 8) s))"

section \<open>Floating-point values\<close>

text \<open>
  A Python \<open>float\<close> is an IEEE 754 binary64 number. \<open>Finite q\<close> is the finite double of
  value \<open>q\<close>; the two zeros are one value here, since the program only adds and compares
  floats and neither operation tells them apart. Rounding is to nearest, ties to even.
\<close>

datatype pyfloat = Finite rat | PosInf | NegInf | NaN

definition pow2 :: "int \<Rightarrow> rat" where
  "pow2 e = (if 0 \<le> e then of_int (2 ^ nat e) else 1 / of_int (2 ^ nat (- e)))"

definition ilog2 :: "rat \<Rightarrow> int" where
  \<comment> \<open>For \<open>x > 0\<close>, the exponent \<open>k\<close> with \<open>2^k \<le> x < 2^(k+1)\<close>.\<close>
  "ilog2 x = (if 1 \<le> x then bitlen \<lfloor>x\<rfloor> - 1 else - bitlen (\<lceil>1 / x\<rceil> - 1))"

definition round_half_even :: "rat \<Rightarrow> int" where
  "round_half_even x =
     (let f = \<lfloor>x\<rfloor>; r = x - of_int f
      in if r < 1 / 2 then f else if 1 / 2 < r then f + 1 else if even f then f else f + 1)"

definition round_pos :: "rat \<Rightarrow> rat" where
  \<comment> \<open>For \<open>x > 0\<close>: the nearest multiple of the unit in the last place, 53 significant
      bits, the exponent of the unit no smaller than -1074 (subnormal numbers).\<close>
  "round_pos x =
     (let e = max (ilog2 x - 52) (- 1074)
      in of_int (round_half_even (x / pow2 e)) * pow2 e)"

definition round_double :: "rat \<Rightarrow> pyfloat" where
  \<comment> \<open>The double nearest to \<open>x\<close>; a rounded magnitude of \<open>2^1024\<close> or more overflows.\<close>
  "round_double x =
     (if x = 0 then Finite 0
      else if 0 < x then (if pow2 1024 \<le> round_pos x then PosInf else Finite (round_pos x))
      else (if pow2 1024 \<le> round_pos (- x) then NegInf else Finite (- round_pos (- x))))"

fun fadd :: "pyfloat \<Rightarrow> pyfloat \<Rightarrow> pyfloat" where
  "fadd NaN _ = NaN"
| "fadd _ NaN = NaN"
| "fadd PosInf NegInf = NaN"
| "fadd NegInf PosInf = NaN"
| "fadd PosInf _ = PosInf"
| "fadd _ PosInf = PosInf"
| "fadd NegInf _ = NegInf"
| "fadd _ NegInf = NegInf"
| "fadd (Finite a) (Finite b) = round_double (a + b)"

fun flt :: "pyfloat \<Rightarrow> pyfloat \<Rightarrow> bool" where
  \<comment> \<open>\<open>a < b\<close>; every comparison with NaN is false.\<close>
  "flt NaN _ = False"
| "flt _ NaN = False"
| "flt PosInf _ = False"
| "flt _ NegInf = False"
| "flt NegInf _ = True"
| "flt _ PosInf = True"
| "flt (Finite a) (Finite b) = (a < b)"

definition fgt :: "pyfloat \<Rightarrow> pyfloat \<Rightarrow> bool" where
  "fgt a b = flt b a"

section \<open>Parsing a float: the builtin \<open>float\<close> on a string\<close>

definition lower :: "char \<Rightarrow> char" where
  \<comment> \<open>ASCII lower case, as the case-insensitive match of \<open>inf\<close> and \<open>nan\<close> uses.\<close>
  "lower c =
     (if (65::nat) \<le> of_char c \<and> of_char c \<le> (90::nat) then char_of (of_char c + (32::nat))
      else c)"

fun underscores_ok :: "char \<Rightarrow> string \<Rightarrow> bool" where
  \<comment> \<open>An underscore is allowed only between two digits; the first argument is the
      previous character.\<close>
  "underscores_ok prev [] = (prev \<noteq> CHR ''_'')"
| "underscores_ok prev (c # cs) =
     ((if c = CHR ''_'' then isdigit prev else (prev = CHR ''_'' \<longrightarrow> isdigit c))
      \<and> underscores_ok c cs)"

definition parse_exponent :: "string \<Rightarrow> int option" where
  \<comment> \<open>What follows the mantissa: nothing, or \<open>e\<close>, an optional sign and digits.\<close>
  "parse_exponent s =
     (case s of
        [] \<Rightarrow> Some 0
      | c # t \<Rightarrow>
          if c = CHR ''e'' \<or> c = CHR ''E'' then
            (let neg = (t \<noteq> [] \<and> hd t = CHR ''-'');
                 u = (if t \<noteq> [] \<and> (hd t = CHR ''-'' \<or> hd t = CHR ''+'') then tl t else t)
             in if u \<noteq> [] \<and> list_all isdigit u
                then Some ((if neg then - 1 else 1) * int_of_digits u)
                else None)
          else None)"

definition parse_number :: "string \<Rightarrow> rat option" where
  \<comment> \<open>An unsigned decimal literal: digits, an optional point and digits, an optional
      exponent; at least one digit in the mantissa. The result is its exact value.\<close>
  "parse_number s =
     (let ip = takeWhile isdigit s;
          r1 = dropWhile isdigit s;
          fp = (case r1 of [] \<Rightarrow> [] | c # t \<Rightarrow> if c = CHR ''.'' then takeWhile isdigit t else []);
          r2 = (case r1 of [] \<Rightarrow> [] | c # t \<Rightarrow> if c = CHR ''.'' then dropWhile isdigit t else r1)
      in if ip = [] \<and> fp = [] then None
         else
           (case parse_exponent r2 of
              None \<Rightarrow> None
            | Some ex \<Rightarrow>
                Some (of_int (int_of_digits (ip @ fp)) *
                      (let k = ex - int (length fp)
                       in if 0 \<le> k then of_int (10 ^ nat k) else 1 / of_int (10 ^ nat (- k))))))"

definition py_float :: "string \<Rightarrow> pyfloat option" where
  \<comment> \<open>\<open>float(s)\<close>; \<open>None\<close> stands for the \<open>ValueError\<close>. The literal is rounded
      correctly to the nearest double.\<close>
  "py_float s =
     (let t = strip_num s in
      if CHR ''_'' \<in> set t \<and> \<not> underscores_ok (CHR 0x00) t then None
      else
        (let u = filter (\<lambda>c. c \<noteq> CHR ''_'') t;
             neg = (u \<noteq> [] \<and> hd u = CHR ''-'');
             v = (if u \<noteq> [] \<and> (hd u = CHR ''-'' \<or> hd u = CHR ''+'') then tl u else u);
             w = map lower v
         in if w = ''inf'' \<or> w = ''infinity'' then Some (if neg then NegInf else PosInf)
            else if w = ''nan'' then Some NaN
            else
              (case parse_number v of
                 None \<Rightarrow> None
               | Some x \<Rightarrow> Some (round_double (if neg then - x else x)))))"

section \<open>Value normalisation: \<open>valeur_formatee_vers_float\<close>\<close>

definition replace_char :: "char \<Rightarrow> char \<Rightarrow> string \<Rightarrow> string" where
  \<comment> \<open>\<open>s.replace(a, b)\<close> for one-character \<open>a\<close> and \<open>b\<close>: every occurrence.\<close>
  "replace_char a b s = map (\<lambda>c. if c = a then b else c) s"

fun valeur_formatee_vers_float :: "string option \<Rightarrow> pyfloat" where
  "valeur_formatee_vers_float None = Finite 0"
| "valeur_formatee_vers_float (Some valeur) =
    (let chaine = strip valeur in
     if chaine = [] then Finite 0
     else
       (let chaine = replace_char (CHR '','') (CHR ''.'') chaine
        in case py_float chaine of
             Some v \<Rightarrow> v
           | None \<Rightarrow> Finite 0))"

section \<open>Aggregation: \<open>mettre_a_jour_total\<close>\<close>

text \<open>
  The table's weight column is a list of cells, \<open>None\<close> where the row has no item. The
  method's result is the pair it then displays: the total and the 1-based number of the
  first suspect row.
\<close>

record agg =
  total :: pyfloat
  premiere_ligne_erreur :: "nat option"

definition truthy :: "string option \<Rightarrow> bool" where
  \<comment> \<open>The truth value of a result that is \<open>None\<close> or a string.\<close>
  "truthy r = (case r of None \<Rightarrow> False | Some s \<Rightarrow> s \<noteq> [])"

definition valeur_cellule :: "string \<Rightarrow> pyfloat" where
  \<comment> \<open>The value of a row whose stripped text \<open>texte\<close> is not empty.\<close>
  "valeur_cellule texte =
     (let formate = formater_ligne (Some texte)
      in if truthy formate then valeur_formatee_vers_float formate
         else valeur_formatee_vers_float (Some texte))"

definition suspecte :: "pyfloat \<Rightarrow> bool" where
  \<comment> \<open>\<open>valeur > 50 or (valeur > 0 and valeur < 0.01)\<close>; \<open>0.01\<close> is a float literal.\<close>
  "suspecte valeur =
     (fgt valeur (Finite 50) \<or>
      (fgt valeur (Finite 0) \<and> flt valeur (round_double (1 / 100))))"

fun boucle :: "nat \<Rightarrow> string option list \<Rightarrow> agg \<Rightarrow> agg" where
  \<comment> \<open>The \<open>for r in range(rowCount)\<close> loop from row \<open>r\<close> on.\<close>
  "boucle r [] st = st"
| "boucle r (cellule # reste) st =
    (case cellule of
       None \<Rightarrow> boucle (r + 1) reste st
     | Some brut \<Rightarrow>
         (let texte = strip brut in
          if texte = [] then boucle (r + 1) reste st
          else
            (let valeur = valeur_cellule texte;
                 st1 = (if suspecte valeur \<and> premiere_ligne_erreur st = None
                        then st\<lparr>premiere_ligne_erreur := Some (r + 1)\<rparr> else st)
             in boucle (r + 1) reste (st1\<lparr>total := fadd (total st1) valeur\<rparr>))))"

definition mettre_a_jour_total :: "string option list \<Rightarrow> agg" where
  "mettre_a_jour_total cellules =
     boucle 0 cellules \<lparr>total = Finite 0, premiere_ligne_erreur = None\<rparr>"

section \<open>Notions of the specification\<close>

definition extracted :: "string \<Rightarrow> string" where
  \<comment> \<open>The characters the weight decoder takes out of a trimmed input: positions 7 to 11
      of a 13-character one, positions 20 to 25 of a longer one.\<close>
  "extracted chaine = (if length chaine = 13 then slice 7 12 chaine else slice 20 26 chaine)"

definition weight_string_ok :: "string \<Rightarrow> bool" where
  \<comment> \<open>The invariant the specification states for a weight string: exactly one comma,
      and at least one digit on each side of it.\<close>
  "weight_string_ok w =
     (count_list w (CHR '','') = 1 \<and>
      list_ex isdigit (takeWhile (\<lambda>c. c \<noteq> CHR '','') w) \<and>
      list_ex isdigit (drop 1 (dropWhile (\<lambda>c. c \<noteq> CHR '','') w)))"

definition cellule_vide :: "string option \<Rightarrow> bool" where
  \<comment> \<open>A row whose weight field is empty: no item, or only whitespace.\<close>
  "cellule_vide cellule = (case cellule of None \<Rightarrow> True | Some brut \<Rightarrow> strip brut = [])"

definition texte_effectif :: "string \<Rightarrow> string" where
  \<comment> \<open>The effective weight text of an entry: the decoder's output when it matches,
      else the raw text.\<close>
  "texte_effectif brut = (case formater_ligne (Some brut) of Some w \<Rightarrow> w | None \<Rightarrow> brut)"

definition valeur_normalisee :: "string option \<Rightarrow> pyfloat" where
  \<comment> \<open>The normalised value of a non-empty entry.\<close>
  "valeur_normalisee cellule =
     (case cellule of
        None \<Rightarrow> Finite 0
      | Some brut \<Rightarrow> valeur_formatee_vers_float (Some (texte_effectif brut)))"

definition anormale :: "string option \<Rightarrow> bool" where
  \<comment> \<open>A non-empty entry whose normalised value is greater than 50, or strictly between
      0 and 0.01.\<close>
  "anormale cellule = (\<not> cellule_vide cellule \<and> suspecte (valeur_normalisee cellule))"

section \<open>Properties of the weight decoder\<close>

lemma length_strip_le: "length (strip s) \<le> length s"
proof -
  have "length (strip s) \<le> length (dropWhile isspace s)"
    unfolding strip_def by (metis length_dropWhile_le length_rev)
  also have "\<dots> \<le> length s" by (rule length_dropWhile_le)
  finally show ?thesis .
qed

lemma slice_nth5:
  assumes "i + 5 \<le> length s"
  shows "slice i (i + 5) s = [s ! i, s ! (i + 1), s ! (i + 2), s ! (i + 3), s ! (i + 4)]"
proof (rule nth_equalityI)
  show "length (slice i (i + 5) s) = length [s ! i, s ! (i + 1), s ! (i + 2), s ! (i + 3), s ! (i + 4)]"
    using assms by (simp add: slice_def)
next
  fix k assume "k < length (slice i (i + 5) s)"
  then have k: "k < 5" by (simp add: slice_def)
  then consider "k = 0" | "k = 1" | "k = 2" | "k = 3" | "k = 4" by linarith
  then show "slice i (i + 5) s ! k = [s ! i, s ! (i + 1), s ! (i + 2), s ! (i + 3), s ! (i + 4)] ! k"
    using assms by cases (simp_all add: slice_def)
qed

text \<open>
  C1 (as amended). Whenever the trimmed input has exactly 13 characters, the decoder
  returns the characters at positions 7 to 11 (counted from 0) of the trimmed input with
  a comma after the second of them. For the input 1234567890123 these characters are
  89012, so the result is 89,012.
\<close>

theorem formater_ligne_13:
  assumes "length (strip s) = 13"
  shows "formater_ligne (Some s) =
           Some [strip s ! 7, strip s ! 8, CHR '','', strip s ! 9, strip s ! 10, strip s ! 11]"
proof -
  have "slice 7 (7 + 5) (strip s) =
          [strip s ! 7, strip s ! (7 + 1), strip s ! (7 + 2), strip s ! (7 + 3), strip s ! (7 + 4)]"
    by (rule slice_nth5) (simp add: assms)
  then have ex: "slice 7 12 (strip s) =
          [strip s ! 7, strip s ! 8, strip s ! 9, strip s ! 10, strip s ! 11]"
    by simp
  show ?thesis
    by (simp add: assms ex Let_def) (simp add: slice_def)
qed

lemma strip_1234567890123: "strip ''1234567890123'' = ''1234567890123''"
  by (simp add: strip_def isspace_def)

theorem formater_ligne_13_witness:
  "length (strip ''1234567890123'') = 13 \<and>
   formater_ligne (Some ''1234567890123'') = Some ''89,012''"
proof -
  have len: "length (strip ''1234567890123'') = 13"
    by (simp add: strip_1234567890123)
  show ?thesis
    using formater_ligne_13 [OF len] by (simp add: strip_1234567890123)
qed

text \<open>
  C1 as stated gives 78,901 for the input 1234567890123. The slice \<open>chaine[7:12]\<close>
  starts at the eighth character, so the decoder returns 89,012.
\<close>

theorem formater_ligne_13_counterexample:
  "length (strip ''1234567890123'') = 13 \<and>
   formater_ligne (Some ''1234567890123'') = Some ''89,012'' \<and>
   formater_ligne (Some ''1234567890123'') \<noteq> Some ''78,901''"
  by (simp add: strip_1234567890123 slice_def)

lemma map_of_formats_map:
  "map_of formats_map k =
     (if k = ''3100'' then Some (\<lambda>n. Some n)
      else if k = ''3101'' then Some (\<lambda>n. if length n > 5 then Some (take 5 n @ '','' @ drop 5 n) else None)
      else if k = ''3102'' then Some (\<lambda>n. if length n > 4 then Some (take 4 n @ '','' @ drop 4 n) else None)
      else if k = ''3103'' then Some (\<lambda>n. if length n > 3 then Some (take 3 n @ '','' @ drop 3 n) else None)
      else if k = ''3104'' then Some (\<lambda>n. if length n > 2 then Some (take 2 n @ '','' @ drop 2 n) else None)
      else if k = ''3105'' then Some (\<lambda>n. if length n > 1 then Some (take 1 n @ '','' @ drop 1 n) else None)
      else None)"
  unfolding formats_map_def by (simp only: map_of.simps fst_conv snd_conv fun_upd_apply)

lemma slice_slice_prefix: "slice 0 4 (slice 16 26 c) = slice 16 20 c"
  by (simp add: slice_def min_def take_drop)

lemma drop_slice_suffix: "drop 4 (slice 16 26 c) = slice 20 26 c"
  by (simp add: slice_def drop_take)

lemma length_slice_20_26: "26 \<le> length c \<Longrightarrow> length (slice 20 26 c) = 6"
  by (simp add: slice_def)

lemma formater_ligne_long:
  assumes "26 \<le> length (strip s)"
    and "startswith (slice 16 26 (strip s)) ''310''"
  shows "formater_ligne (Some s) =
          (case map_of formats_map (slice 16 20 (strip s)) of
             None \<Rightarrow> None | Some f \<Rightarrow> f (slice 20 26 (strip s)))"
proof -
  have "length (strip s) \<noteq> 13" and "\<not> length (strip s) < 26"
    using assms(1) by simp_all
  then show ?thesis
    using assms(2) by (simp add: Let_def slice_slice_prefix drop_slice_suffix)
qed

text \<open>
  C2. When the trimmed input has at least 26 characters and the ten characters from
  offset 16 start with 310, the result is decided by the four-character format code at
  offsets 16 to 19 and the run of six characters at offsets 20 to 25: code 3100 returns
  the run unchanged, codes 3101 to 3105 insert a comma after position 5, 4, 3, 2 and 1,
  each only if the run is strictly longer than that position, and every other code gives
  no match.
\<close>

theorem formater_ligne_310x:
  assumes "26 \<le> length (strip s)"
    and "startswith (slice 16 26 (strip s)) ''310''"
  shows "length (slice 20 26 (strip s)) = 6 \<and>
         formater_ligne (Some s) =
           (let code = slice 16 20 (strip s); run = slice 20 26 (strip s)
            in if code = ''3100'' then Some run
               else if code = ''3101'' then
                 (if 5 < length run then Some (take 5 run @ '','' @ drop 5 run) else None)
               else if code = ''3102'' then
                 (if 4 < length run then Some (take 4 run @ '','' @ drop 4 run) else None)
               else if code = ''3103'' then
                 (if 3 < length run then Some (take 3 run @ '','' @ drop 3 run) else None)
               else if code = ''3104'' then
                 (if 2 < length run then Some (take 2 run @ '','' @ drop 2 run) else None)
               else if code = ''3105'' then
                 (if 1 < length run then Some (take 1 run @ '','' @ drop 1 run) else None)
               else None)"
  using formater_ligne_long [OF assms] assms(1)
  by (simp add: map_of_formats_map length_slice_20_26 Let_def)

lemma strip_ex3103: "strip ''0000000000000000310312345600'' = ''0000000000000000310312345600''"
  by (simp add: strip_def isspace_def)

theorem formater_ligne_310x_witness:
  "26 \<le> length (strip ''0000000000000000310312345600'') \<and>
   startswith (slice 16 26 (strip ''0000000000000000310312345600'')) ''310'' \<and>
   formater_ligne (Some ''0000000000000000310312345600'') = Some ''123,456''"
proof -
  have a: "26 \<le> length (strip ''0000000000000000310312345600'')"
    by (simp add: strip_ex3103)
  have b: "startswith (slice 16 26 (strip ''0000000000000000310312345600'')) ''310''"
    by (simp add: strip_ex3103 slice_def startswith_def)
  show ?thesis
    using a b formater_ligne_310x [OF a b]
    by (simp add: strip_ex3103 slice_def Let_def)
qed

lemma formater_ligne_length:
  assumes "formater_ligne (Some s) = Some w"
  shows "length w \<le> 7"
proof (cases "length (strip s) = 13")
  case True
  then show ?thesis using assms by (auto simp: Let_def slice_def split: if_splits)
next
  case False
  with assms have ge: "26 \<le> length (strip s)"
    and sw: "startswith (slice 16 26 (strip s)) ''310''"
    by (auto simp: Let_def split: if_splits)
  from assms length_slice_20_26 [OF ge] formater_ligne_long [OF ge sw] show ?thesis
    by (auto simp: map_of_formats_map split: if_splits)
qed

text \<open>
  C9. Decoding is a one-shot transform: when the decoder matches an input, decoding
  its output again gives no match. The output has at most seven characters, so its
  trimmed length is neither 13 nor at least 26.
\<close>

theorem formater_ligne_one_shot:
  assumes "formater_ligne (Some s) = Some w"
  shows "formater_ligne (Some w) = None"
proof -
  have "length (strip w) \<le> 7"
    using formater_ligne_length [OF assms] length_strip_le [of w] by linarith
  then show ?thesis by (simp add: Let_def)
qed

theorem formater_ligne_one_shot_witness:
  "formater_ligne (Some ''0000000000000000310312345600'') = Some ''123,456'' \<and>
   formater_ligne (Some ''123,456'') = None"
proof -
  have a: "formater_ligne (Some ''0000000000000000310312345600'') = Some ''123,456''"
    by (simp add: strip_ex3103 slice_def Let_def startswith_def formats_map_def)
  show ?thesis
    using a formater_ligne_one_shot [OF a] by simp
qed

section \<open>Properties of the expiry decoder\<close>

lemma match_at_drop:
  "match_at (drop i s) = (if occurs_at s i then Some (slice (i + 2) (i + 8) s) else None)"
proof -
  have a: "slice 2 8 (drop i s) = slice (i + 2) (i + 8) s"
    by (simp add: slice_def add.commute)
  have b: "startswith (drop i s) ''15'' \<longleftrightarrow> slice i (i + 2) s = ''15''"
    by (simp add: startswith_def slice_def numeral_2_eq_2)
  have c: "length (slice (i + 2) (i + 8) s) = 6 \<longleftrightarrow> i + 8 \<le> length s"
    by (auto simp: slice_def)
  show ?thesis
    unfolding match_at_def a b c occurs_at_def by auto
qed

lemma re_search_first:
  "occurs_at s i \<Longrightarrow> (\<And>j. j < i \<Longrightarrow> \<not> occurs_at s j) \<Longrightarrow>
   re_search s = Some (slice (i + 2) (i + 8) s)"
proof (induction s arbitrary: i)
  case Nil
  then show ?case by (simp add: occurs_at_def)
next
  case (Cons c cs)
  show ?case
  proof (cases i)
    case 0
    with Cons.prems(1) match_at_drop [of 0 "c # cs"] show ?thesis by simp
  next
    case (Suc k)
    have "\<not> occurs_at (c # cs) 0" using Cons.prems(2) [of 0] Suc by simp
    then have m0: "match_at (c # cs) = None"
      using match_at_drop [of 0 "c # cs"] by simp
    have shift: "occurs_at (c # cs) (Suc j) = occurs_at cs j" for j
      by (simp add: occurs_at_def slice_def ac_simps)
    have "occurs_at cs k" using Cons.prems(1) Suc shift by simp
    moreover have "\<not> occurs_at cs j" if "j < k" for j
      using Cons.prems(2) [of "Suc j"] that Suc shift by simp
    ultimately have "re_search cs = Some (slice (k + 2) (k + 8) cs)"
      by (rule Cons.IH)
    then show ?thesis using m0 Suc by (simp add: slice_def)
  qed
qed

lemma re_search_none:
  "(\<And>i. \<not> occurs_at s i) \<Longrightarrow> re_search s = None"
proof (induction s)
  case Nil
  then show ?case by simp
next
  case (Cons c cs)
  have "\<not> occurs_at (c # cs) 0" by (rule Cons.prems)
  then have m0: "match_at (c # cs) = None"
    using match_at_drop [of 0 "c # cs"] by simp
  have shift: "occurs_at (c # cs) (Suc j) = occurs_at cs j" for j
    by (simp add: occurs_at_def slice_def ac_simps)
  have "\<not> occurs_at cs j" for j
    using Cons.prems [of "Suc j"] shift by simp
  then have "re_search cs = None" by (rule Cons.IH)
  then show ?case using m0 by simp
qed

lemma isdigit_facts:
  assumes "isdigit c"
  shows "0 \<le> digit_val c" and "digit_val c \<le> 9"
    and "''0123456789'' ! nat (digit_val c) = c"
    and "\<not> isspace_num c" and "c \<noteq> CHR ''-''" and "c \<noteq> CHR ''+''" and "c \<noteq> CHR ''_''"
  using assms unfolding isdigit_def digit_val_def isspace_num_def by auto

lemma py_int_2digits:
  assumes "isdigit a" and "isdigit b"
  shows "py_int [a, b] = Some (10 * digit_val a + digit_val b)"
proof -
  have st: "strip_num [a, b] = [a, b]"
    using isdigit_facts(4) [OF assms(1)] isdigit_facts(4) [OF assms(2)]
    by (simp add: strip_num_def)
  have dp: "digitpart [a, b]"
    using assms isdigit_facts(7) [OF assms(2)] by simp
  show ?thesis
    using isdigit_facts(5,6,7) [OF assms(1)] isdigit_facts(7) [OF assms(2)] dp
    by (simp add: py_int_def st int_of_digits_def)
qed

lemma str_nat_1: "n < 10 \<Longrightarrow> str_nat n = [''0123456789'' ! n]"
  by (subst str_nat.simps) simp

lemma str_nat_2:
  "x < 10 \<Longrightarrow> y < 10 \<Longrightarrow> 0 < x \<Longrightarrow> str_nat (10 * x + y) = [''0123456789'' ! x, ''0123456789'' ! y]"
  by (subst str_nat.simps) (simp add: str_nat_1)

lemma divmod10:
  fixes k y :: nat
  assumes "y < 10"
  shows "(y + k * 10) div 10 = k" and "(y + k * 10) mod 10 = y"
proof -
  have d1: "(y + k * 10) div 10 = k + y div 10" by (rule div_mult_self1) simp
  have d2: "y div 10 = 0" using assms by simp
  show "(y + k * 10) div 10 = k" by (simp only: d1 d2 add_0_right)
  have m1: "(y + k * 10) mod 10 = y mod 10" by (rule mod_mult_self1)
  show "(y + k * 10) mod 10 = y" using assms by (simp only: m1 mod_less)
qed

lemma str_nat_20xy:
  assumes "x < 10" and "y < 10"
  shows "str_nat (2000 + (10 * x + y)) =
           [CHR ''2'', CHR ''0'', ''0123456789'' ! x, ''0123456789'' ! y]"
proof -
  have e: "2000 + (10 * x + y) = y + (200 + x) * 10" by simp
  have f: "200 + x = x + 20 * 10" by simp
  have a: "(2000 + (10 * x + y)) div 10 = 200 + x" "(2000 + (10 * x + y)) mod 10 = y"
    by (simp_all only: e divmod10 [OF assms(2)])
  have b: "(200 + x) div 10 = 20" "(200 + x) mod 10 = x"
    by (subst f, simp only: divmod10 [OF assms(1)])+
  have c: "str_nat 20 = ''20''"
    using str_nat_2 [of 2 0] by simp
  have "str_nat (200 + x) = str_nat 20 @ [''0123456789'' ! x]"
    by (subst str_nat.simps) (simp add: b)
  moreover have "str_nat (2000 + (10 * x + y)) = str_nat (200 + x) @ [''0123456789'' ! y]"
    by (subst str_nat.simps) (simp add: a)
  ultimately show ?thesis by (simp add: c)
qed

lemma format_0d_2:
  assumes "0 \<le> x" "x \<le> 9" "0 \<le> y" "y \<le> 9"
  shows "format_0d 2 (10 * x + y) = [''0123456789'' ! nat x, ''0123456789'' ! nat y]"
proof -
  have n: "nat (10 * x + y) = 10 * nat x + nat y" using assms by simp
  show ?thesis
  proof (cases "x = 0")
    case True
    then show ?thesis using assms by (simp add: format_0d_def str_nat_1)
  next
    case False
    then have "str_nat (10 * nat x + nat y) = [''0123456789'' ! nat x, ''0123456789'' ! nat y]"
      using assms by (intro str_nat_2) simp_all
    then show ?thesis using assms by (simp add: format_0d_def n)
  qed
qed

lemma format_0d_4:
  assumes "0 \<le> x" "x \<le> 9" "0 \<le> y" "y \<le> 9"
  shows "format_0d 4 (2000 + (10 * x + y)) =
           [CHR ''2'', CHR ''0'', ''0123456789'' ! nat x, ''0123456789'' ! nat y]"
proof -
  have n: "nat (2000 + (10 * x + y)) = 2000 + (10 * nat x + nat y)" using assms by simp
  have "str_nat (2000 + (10 * nat x + nat y)) =
          [CHR ''2'', CHR ''0'', ''0123456789'' ! nat x, ''0123456789'' ! nat y]"
    using assms by (intro str_nat_20xy) simp_all
  then show ?thesis using assms by (simp add: format_0d_def n)
qed

lemma is_leap_20yy:
  assumes "0 \<le> yy" "yy \<le> 99"
  shows "is_leap (2000 + yy) \<longleftrightarrow> yy mod 4 = 0"
proof -
  have a: "(2000 + yy) mod 4 = yy mod 4"
    using mod_mult_self1 [of yy 500 4] by (simp add: add.commute)
  have b: "(2000 + yy) mod 100 = yy"
    using mod_mult_self1 [of yy 20 100] assms by (simp add: add.commute)
  have c: "(2000 + yy) mod 400 = yy"
    using mod_mult_self1 [of yy 5 400] assms by (simp add: add.commute)
  show ?thesis unfolding is_leap_def a b c by auto
qed

lemma days_in_month_20yy:
  assumes "0 \<le> yy" "yy \<le> 99" "1 \<le> mm" "mm \<le> 12"
  shows "days_in_month (2000 + yy) mm =
           (if mm = 2 then (if yy mod 4 = 0 then 29 else 28)
            else if mm \<in> {4, 6, 9, 11} then 30 else 31)"
proof -
  have leap: "is_leap (2000 + yy) \<longleftrightarrow> yy mod 4 = 0"
    using assms(1,2) by (rule is_leap_20yy)
  from assms(3,4) have "mm = 1 \<or> mm = 2 \<or> mm = 3 \<or> mm = 4 \<or> mm = 5 \<or> mm = 6
    \<or> mm = 7 \<or> mm = 8 \<or> mm = 9 \<or> mm = 10 \<or> mm = 11 \<or> mm = 12"
    by presburger
  then show ?thesis
    by (elim disjE) (simp_all add: days_in_month_def leap)
qed

lemma dlc_of_yymmjj_digits:
  assumes "list_all isdigit [y1, y2, m1, m2, d1, d2]"
  shows "dlc_of_yymmjj [y1, y2, m1, m2, d1, d2] =
     (let yy = 10 * digit_val y1 + digit_val y2;
          mm = 10 * digit_val m1 + digit_val m2;
          dd = 10 * digit_val d1 + digit_val d2
      in if 1 \<le> mm \<and> mm \<le> 12 \<and> 1 \<le> dd \<and>
            dd \<le> (if mm = 2 then (if yy mod 4 = 0 then 29 else 28)
                  else if mm \<in> {4, 6, 9, 11} then 30 else 31)
         then Some [d1, d2, CHR ''/'', m1, m2, CHR ''/'', CHR ''2'', CHR ''0'', y1, y2]
         else None)"
proof -
  from assms have d: "isdigit y1" "isdigit y2" "isdigit m1" "isdigit m2" "isdigit d1" "isdigit d2"
    by simp_all
  define yy where "yy = 10 * digit_val y1 + digit_val y2"
  define mm where "mm = 10 * digit_val m1 + digit_val m2"
  define dd where "dd = 10 * digit_val d1 + digit_val d2"
  have sl: "slice 0 2 [y1, y2, m1, m2, d1, d2] = [y1, y2]"
    "slice 2 4 [y1, y2, m1, m2, d1, d2] = [m1, m2]"
    "slice 4 6 [y1, y2, m1, m2, d1, d2] = [d1, d2]"
    by (simp_all add: slice_def)
  have pi: "py_int [y1, y2] = Some yy" "py_int [m1, m2] = Some mm" "py_int [d1, d2] = Some dd"
    unfolding yy_def mm_def dd_def by (simp_all add: py_int_2digits d)
  have yb: "0 \<le> yy" "yy \<le> 99"
    unfolding yy_def using isdigit_facts(1,2) [OF d(1)] isdigit_facts(1,2) [OF d(2)] by linarith+
  have unfold: "dlc_of_yymmjj [y1, y2, m1, m2, d1, d2] =
      (case datetime (2000 + yy) mm dd of
         None \<Rightarrow> None
       | Some date_obj \<Rightarrow>
           Some (format_0d 2 (day date_obj) @ ''/'' @ format_0d 2 (month date_obj) @ ''/'' @
                 format_0d 4 (year date_obj)))"
    by (simp add: dlc_of_yymmjj_def sl pi)
  show ?thesis
  proof (cases "1 \<le> mm \<and> mm \<le> 12")
    case False
    then show ?thesis
      unfolding unfold Let_def yy_def [symmetric] mm_def [symmetric] dd_def [symmetric]
      by (auto simp: datetime_def)
  next
    case True
    have dim: "days_in_month (2000 + yy) mm =
           (if mm = 2 then (if yy mod 4 = 0 then 29 else 28)
            else if mm \<in> {4, 6, 9, 11} then 30 else 31)"
      using yb True by (intro days_in_month_20yy) simp_all
    show ?thesis
    proof (cases "1 \<le> dd \<and> dd \<le> days_in_month (2000 + yy) mm")
      case False
      then show ?thesis
        unfolding unfold Let_def yy_def [symmetric] mm_def [symmetric] dd_def [symmetric]
        using True yb dim by (simp add: datetime_def)
    next
      case ok: True
      have dt: "datetime (2000 + yy) mm dd = Some \<lparr>year = 2000 + yy, month = mm, day = dd\<rparr>"
        using True ok yb by (simp add: datetime_def)
      have f1: "format_0d 2 dd = [d1, d2]"
        unfolding dd_def
        using format_0d_2 [OF isdigit_facts(1,2) [OF d(5)] isdigit_facts(1,2) [OF d(6)]]
          isdigit_facts(3) [OF d(5)] isdigit_facts(3) [OF d(6)] by simp
      have f2: "format_0d 2 mm = [m1, m2]"
        unfolding mm_def
        using format_0d_2 [OF isdigit_facts(1,2) [OF d(3)] isdigit_facts(1,2) [OF d(4)]]
          isdigit_facts(3) [OF d(3)] isdigit_facts(3) [OF d(4)] by simp
      have f3: "format_0d 4 (2000 + yy) = [CHR ''2'', CHR ''0'', y1, y2]"
        unfolding yy_def
        using format_0d_4 [OF isdigit_facts(1,2) [OF d(1)] isdigit_facts(1,2) [OF d(2)]]
          isdigit_facts(3) [OF d(1)] isdigit_facts(3) [OF d(2)] by simp
      show ?thesis
        unfolding unfold Let_def yy_def [symmetric] mm_def [symmetric] dd_def [symmetric]
        using True ok dim by (simp add: dt f1 f2 f3)
    qed
  qed
qed

lemma extraire_dlc_first:
  assumes "26 < length (strip t)"
    and "occurs_at (drop 26 (strip t)) i"
    and "\<forall>j<i. \<not> occurs_at (drop 26 (strip t)) j"
  shows "extraire_dlc_from_scan (Some t) =
           dlc_of_yymmjj (slice (i + 2) (i + 8) (drop 26 (strip t)))"
proof -
  have "re_search (drop 26 (strip t)) = Some (slice (i + 2) (i + 8) (drop 26 (strip t)))"
    using assms(2,3) by (intro re_search_first) simp_all
  with assms(1) show ?thesis by (simp add: Let_def)
qed

lemma extraire_dlc_absent:
  assumes "26 < length (strip t)"
    and "\<forall>j. \<not> occurs_at (drop 26 (strip t)) j"
  shows "extraire_dlc_from_scan (Some t) = None"
proof -
  have "re_search (drop 26 (strip t)) = None"
    using assms(2) by (intro re_search_none) simp
  with assms(1) show ?thesis by (simp add: Let_def)
qed

lemma strip_ex_0228:
  "strip ''0000000000000000000000000015230228'' = ''0000000000000000000000000015230228''"
  by (simp add: strip_def isspace_def)

lemma strip_ex_0230:
  "strip ''0000000000000000000000000015230230'' = ''0000000000000000000000000015230230''"
  by (simp add: strip_def isspace_def)

lemma strip_ex_x0228:
  "strip ''00000000000000000000000000x15230228'' = ''00000000000000000000000000x15230228''"
  by (simp add: strip_def isspace_def)

lemma strip_ex_short:
  "strip ''00000000000000000000000000152302'' = ''00000000000000000000000000152302''"
  by (simp add: strip_def isspace_def)

lemma strip_ex_A0228:
  "strip ''AAAAAAAAAAAAAAAAAAAAAAAAAA15230228'' = ''AAAAAAAAAAAAAAAAAAAAAAAAAA15230228''"
  by (simp add: strip_def isspace_def)

lemma strip_ex_7digits:
  "strip ''00000000000000000000000000152302281'' = ''00000000000000000000000000152302281''"
  by (simp add: strip_def isspace_def)

lemma strip_ex_15230228: "strip ''15230228'' = ''15230228''"
  by (simp add: strip_def isspace_def)

lemma dlc_230228: "dlc_of_yymmjj ''230228'' = Some ''28/02/2023''"
proof -
  have "list_all isdigit ''230228''" by (simp add: isdigit_def)
  from dlc_of_yymmjj_digits [OF this] show ?thesis by (simp add: digit_val_def)
qed

lemma dlc_230230: "dlc_of_yymmjj ''230230'' = None"
proof -
  have "list_all isdigit ''230230''" by (simp add: isdigit_def)
  from dlc_of_yymmjj_digits [OF this] show ?thesis by (simp add: digit_val_def)
qed

text \<open>
  C3 (as amended). The expiry decoder returns no match when the trimmed input has at
  most 26 characters. Otherwise it looks at the text from offset 26 on: if that text has
  no occurrence of 15 followed by six digits the result is no match, and if it has one,
  the result is decided by the six digits of the first occurrence alone (a date when
  they form a real calendar date, no match otherwise). More digits may follow the six.
\<close>

theorem extraire_dlc_search:
  "(length (strip t) \<le> 26 \<longrightarrow> extraire_dlc_from_scan (Some t) = None) \<and>
   (26 < length (strip t) \<and> (\<forall>j. \<not> occurs_at (drop 26 (strip t)) j) \<longrightarrow>
      extraire_dlc_from_scan (Some t) = None) \<and>
   (26 < length (strip t) \<and> occurs_at (drop 26 (strip t)) i \<and>
    (\<forall>j<i. \<not> occurs_at (drop 26 (strip t)) j) \<longrightarrow>
      extraire_dlc_from_scan (Some t) =
        dlc_of_yymmjj (slice (i + 2) (i + 8) (drop 26 (strip t))))"
  using extraire_dlc_first [of t i] extraire_dlc_absent [of t] by simp

theorem extraire_dlc_search_witness:
  "length (strip ''15230228'') \<le> 26 \<and>
   extraire_dlc_from_scan (Some ''15230228'') = None \<and>
   26 < length (strip ''00000000000000000000000000152302'') \<and>
   (\<forall>j. \<not> occurs_at (drop 26 (strip ''00000000000000000000000000152302'')) j) \<and>
   extraire_dlc_from_scan (Some ''00000000000000000000000000152302'') = None \<and>
   26 < length (strip ''00000000000000000000000000x15230228'') \<and>
   occurs_at (drop 26 (strip ''00000000000000000000000000x15230228'')) 1 \<and>
   \<not> occurs_at (drop 26 (strip ''00000000000000000000000000x15230228'')) 0 \<and>
   extraire_dlc_from_scan (Some ''00000000000000000000000000x15230228'') = Some ''28/02/2023'' \<and>
   26 < length (strip ''00000000000000000000000000152302281'') \<and>
   occurs_at (drop 26 (strip ''00000000000000000000000000152302281'')) 0 \<and>
   extraire_dlc_from_scan (Some ''00000000000000000000000000152302281'') = Some ''28/02/2023''"
proof -
  have a: "length (strip ''15230228'') \<le> 26"
    by (simp add: strip_ex_15230228)
  have b: "26 < length (strip ''00000000000000000000000000152302'')"
    by (simp add: strip_ex_short)
  have c: "\<forall>j. \<not> occurs_at (drop 26 (strip ''00000000000000000000000000152302'')) j"
    by (simp add: strip_ex_short occurs_at_def)
  have d: "26 < length (strip ''00000000000000000000000000x15230228'')"
    by (simp add: strip_ex_x0228)
  have e: "occurs_at (drop 26 (strip ''00000000000000000000000000x15230228'')) 1"
    by (simp add: strip_ex_x0228 occurs_at_def slice_def isdigit_def)
  have f: "\<forall>j<1. \<not> occurs_at (drop 26 (strip ''00000000000000000000000000x15230228'')) j"
    by (simp add: strip_ex_x0228 occurs_at_def slice_def)
  have f0: "\<not> occurs_at (drop 26 (strip ''00000000000000000000000000x15230228'')) 0"
    using f by simp
  have g: "slice (1 + 2) (1 + 8) (drop 26 (strip ''00000000000000000000000000x15230228'')) = ''230228''"
    by (simp add: strip_ex_x0228 slice_def)
  have h: "26 < length (strip ''00000000000000000000000000152302281'')"
    by (simp add: strip_ex_7digits)
  have i: "occurs_at (drop 26 (strip ''00000000000000000000000000152302281'')) 0"
    by (simp add: strip_ex_7digits occurs_at_def slice_def isdigit_def)
  have k: "\<forall>j<0. \<not> occurs_at (drop 26 (strip ''00000000000000000000000000152302281'')) j"
    by simp
  have l: "slice (0 + 2) (0 + 8) (drop 26 (strip ''00000000000000000000000000152302281'')) = ''230228''"
    by (simp add: strip_ex_7digits slice_def)
  show ?thesis
    using a b c d e f f0 h i k
      extraire_dlc_search [of "''15230228''" 0]
      extraire_dlc_search [of "''00000000000000000000000000152302''" 0]
      extraire_dlc_search [of "''00000000000000000000000000x15230228''" 1]
      extraire_dlc_search [of "''00000000000000000000000000152302281''" 0]
    by (simp only: g l dlc_230228 simp_thms)
qed

text \<open>
  C3 as stated makes the decoder match whenever the text from offset 26 on contains 15
  followed by six digits. The input below contains 15230230 there, and the decoder
  returns no match, since 30 February is no date.
\<close>

theorem extraire_dlc_search_counterexample:
  "26 < length (strip ''0000000000000000000000000015230230'') \<and>
   occurs_at (drop 26 (strip ''0000000000000000000000000015230230'')) 0 \<and>
   extraire_dlc_from_scan (Some ''0000000000000000000000000015230230'') = None"
proof -
  have a: "26 < length (strip ''0000000000000000000000000015230230'')"
    by (simp add: strip_ex_0230)
  have b: "occurs_at (drop 26 (strip ''0000000000000000000000000015230230'')) 0"
    by (simp add: strip_ex_0230 occurs_at_def slice_def isdigit_def)
  have c: "slice (0 + 2) (0 + 8) (drop 26 (strip ''0000000000000000000000000015230230'')) = ''230230''"
    by (simp add: strip_ex_0230 slice_def)
  have "extraire_dlc_from_scan (Some ''0000000000000000000000000015230230'') = None"
    using extraire_dlc_first [OF a b] by (simp only: c dlc_230230) simp
  with a b show ?thesis by simp
qed

text \<open>
  C4. The six digits of the first occurrence are read as YYMMDD. The result is a date
  exactly when MM is a month from 1 to 12 and DD is a day of that month in the year
  2000 + YY (February has 29 days when YY is a multiple of 4, which in 2000..2099 is
  the leap-year rule); it is then the ten characters DD/MM/20YY, with the digits of the
  input. Otherwise the result is no match. The segment 15230228 gives 28/02/2023 and
  15230230 gives no match.
\<close>

theorem extraire_dlc_date:
  assumes "26 < length (strip t)"
    and "occurs_at (drop 26 (strip t)) i"
    and "\<forall>j<i. \<not> occurs_at (drop 26 (strip t)) j"
    and "slice (i + 2) (i + 8) (drop 26 (strip t)) = [y1, y2, m1, m2, d1, d2]"
  shows "extraire_dlc_from_scan (Some t) =
     (let yy = 10 * digit_val y1 + digit_val y2;
          mm = 10 * digit_val m1 + digit_val m2;
          dd = 10 * digit_val d1 + digit_val d2
      in if 1 \<le> mm \<and> mm \<le> 12 \<and> 1 \<le> dd \<and>
            dd \<le> (if mm = 2 then (if yy mod 4 = 0 then 29 else 28)
                  else if mm \<in> {4, 6, 9, 11} then 30 else 31)
         then Some [d1, d2, CHR ''/'', m1, m2, CHR ''/'', CHR ''2'', CHR ''0'', y1, y2]
         else None)"
proof -
  have "list_all isdigit [y1, y2, m1, m2, d1, d2]"
    using assms(2,4) by (simp add: occurs_at_def)
  from dlc_of_yymmjj_digits [OF this] extraire_dlc_first [OF assms(1,2,3)] assms(4)
  show ?thesis by simp
qed

theorem extraire_dlc_date_witness:
  "26 < length (strip ''0000000000000000000000000015230228'') \<and>
   occurs_at (drop 26 (strip ''0000000000000000000000000015230228'')) 0 \<and>
   slice (0 + 2) (0 + 8) (drop 26 (strip ''0000000000000000000000000015230228'')) = ''230228'' \<and>
   extraire_dlc_from_scan (Some ''0000000000000000000000000015230228'') = Some ''28/02/2023'' \<and>
   26 < length (strip ''0000000000000000000000000015230230'') \<and>
   occurs_at (drop 26 (strip ''0000000000000000000000000015230230'')) 0 \<and>
   slice (0 + 2) (0 + 8) (drop 26 (strip ''0000000000000000000000000015230230'')) = ''230230'' \<and>
   extraire_dlc_from_scan (Some ''0000000000000000000000000015230230'') = None"
proof -
  have a: "26 < length (strip ''0000000000000000000000000015230228'')"
    by (simp add: strip_ex_0228)
  have b: "occurs_at (drop 26 (strip ''0000000000000000000000000015230228'')) 0"
    by (simp add: strip_ex_0228 occurs_at_def slice_def isdigit_def)
  have c: "\<forall>j<0. \<not> occurs_at (drop 26 (strip ''0000000000000000000000000015230228'')) j"
    by simp
  have d: "slice (0 + 2) (0 + 8) (drop 26 (strip ''0000000000000000000000000015230228'')) = ''230228''"
    by (simp add: strip_ex_0228 slice_def)
  have a': "26 < length (strip ''0000000000000000000000000015230230'')"
    by (simp add: strip_ex_0230)
  have b': "occurs_at (drop 26 (strip ''0000000000000000000000000015230230'')) 0"
    by (simp add: strip_ex_0230 occurs_at_def slice_def isdigit_def)
  have c': "\<forall>j<0. \<not> occurs_at (drop 26 (strip ''0000000000000000000000000015230230'')) j"
    by simp
  have d': "slice (0 + 2) (0 + 8) (drop 26 (strip ''0000000000000000000000000015230230'')) = ''230230''"
    by (simp add: strip_ex_0230 slice_def)
  have r1: "extraire_dlc_from_scan (Some ''0000000000000000000000000015230228'') = Some ''28/02/2023''"
    using extraire_dlc_date [OF a b c d] by (simp add: digit_val_def)
  have r2: "extraire_dlc_from_scan (Some ''0000000000000000000000000015230230'') = None"
    using extraire_dlc_date [OF a' b' c' d'] by (simp add: digit_val_def)
  show ?thesis using a b d a' b' d' r1 r2 by simp
qed

text \<open>
  C10. Two inputs whose trimmed forms are both longer than 26 characters and agree from
  index 26 on get the same result: the first 26 characters do not influence the
  decoded date.
\<close>

theorem extraire_dlc_prefix_independent:
  assumes "26 < length (strip a)" and "26 < length (strip b)"
    and "drop 26 (strip a) = drop 26 (strip b)"
  shows "extraire_dlc_from_scan (Some a) = extraire_dlc_from_scan (Some b)"
  using assms by (simp add: Let_def)

theorem extraire_dlc_prefix_independent_witness:
  "26 < length (strip ''AAAAAAAAAAAAAAAAAAAAAAAAAA15230228'') \<and>
   26 < length (strip ''0000000000000000000000000015230228'') \<and>
   drop 26 (strip ''AAAAAAAAAAAAAAAAAAAAAAAAAA15230228'') =
     drop 26 (strip ''0000000000000000000000000015230228'') \<and>
   extraire_dlc_from_scan (Some ''AAAAAAAAAAAAAAAAAAAAAAAAAA15230228'') =
     extraire_dlc_from_scan (Some ''0000000000000000000000000015230228'')"
proof -
  have a: "26 < length (strip ''AAAAAAAAAAAAAAAAAAAAAAAAAA15230228'')"
    by (simp add: strip_ex_A0228)
  have b: "26 < length (strip ''0000000000000000000000000015230228'')"
    by (simp add: strip_ex_0228)
  have c: "drop 26 (strip ''AAAAAAAAAAAAAAAAAAAAAAAAAA15230228'') =
     drop 26 (strip ''0000000000000000000000000015230228'')"
    by (simp add: strip_ex_A0228 strip_ex_0228)
  show ?thesis
    using a b c extraire_dlc_prefix_independent [OF a b c] by simp
qed

section \<open>The shape of a decoded weight\<close>

lemma isdigit_not_comma: "isdigit c \<Longrightarrow> c \<noteq> CHR '',''"
  unfolding isdigit_def by auto

lemma count_list_digits: "list_all isdigit a \<Longrightarrow> count_list a (CHR '','') = 0"
  by (induction a) (auto dest: isdigit_not_comma)

lemma takeWhile_digits_comma:
  "list_all isdigit a \<Longrightarrow> takeWhile (\<lambda>c. c \<noteq> CHR '','') (a @ CHR '','' # b) = a"
  by (induction a) (auto dest: isdigit_not_comma)

lemma dropWhile_digits_comma:
  "list_all isdigit a \<Longrightarrow> dropWhile (\<lambda>c. c \<noteq> CHR '','') (a @ CHR '','' # b) = CHR '','' # b"
  by (induction a) (auto dest: isdigit_not_comma)

lemma list_ex_digits: "list_all isdigit a \<Longrightarrow> a \<noteq> [] \<Longrightarrow> list_ex isdigit a"
  by (cases a) auto

lemma weight_string_ok_digits:
  assumes "list_all isdigit a" and "list_all isdigit b" and "a \<noteq> []" and "b \<noteq> []"
  shows "weight_string_ok (a @ CHR '','' # b)"
  unfolding weight_string_ok_def
  using assms
  by (simp add: count_list_digits takeWhile_digits_comma dropWhile_digits_comma list_ex_digits)

lemma list_all_take_drop:
  "list_all P xs \<Longrightarrow> list_all P (take k xs) \<and> list_all P (drop k xs)"
  by (metis append_take_drop_id list_all_append)

lemma formater_ligne_cases:
  assumes "formater_ligne (Some s) = Some w"
  shows "(length (strip s) = 13 \<and> length (extracted (strip s)) = 5 \<and>
          w = take 2 (extracted (strip s)) @ CHR '','' # drop 2 (extracted (strip s))) \<or>
         (26 \<le> length (strip s) \<and> length (extracted (strip s)) = 6 \<and>
          slice 16 20 (strip s) = ''3100'' \<and> w = extracted (strip s)) \<or>
         (26 \<le> length (strip s) \<and> length (extracted (strip s)) = 6 \<and>
          slice 16 20 (strip s) \<noteq> ''3100'' \<and>
          (\<exists>k\<in>{1, 2, 3, 4, 5}.
             w = take k (extracted (strip s)) @ CHR '','' # drop k (extracted (strip s))))"
proof (cases "length (strip s) = 13")
  case True
  then show ?thesis using assms
    by (auto simp: Let_def slice_def extracted_def split: if_splits)
next
  case False
  with assms have ge: "26 \<le> length (strip s)"
    and sw: "startswith (slice 16 26 (strip s)) ''310''"
    by (auto simp: Let_def split: if_splits)
  have ex: "extracted (strip s) = slice 20 26 (strip s)"
    using False by (simp add: extracted_def)
  from assms length_slice_20_26 [OF ge] formater_ligne_long [OF ge sw] ge show ?thesis
    unfolding ex by (auto simp: map_of_formats_map split: if_splits)
qed

text \<open>
  C5 (as amended). When the decoder matches and the characters it extracts are all
  digits, the result is well formed in this sense: under format code 3100 it is the six
  extracted digits with no comma; in every other case it contains exactly one comma,
  with at least one digit on each side.
\<close>

theorem formater_ligne_well_formed:
  assumes "formater_ligne (Some s) = Some w"
    and "list_all isdigit (extracted (strip s))"
  shows "if length (strip s) \<noteq> 13 \<and> slice 16 20 (strip s) = ''3100''
         then w = extracted (strip s) \<and> count_list w (CHR '','') = 0
         else weight_string_ok w"
proof -
  let ?e = "extracted (strip s)"
  have td: "list_all isdigit (take k ?e)" "list_all isdigit (drop k ?e)" for k
    using list_all_take_drop [OF assms(2)] by simp_all
  from formater_ligne_cases [OF assms(1)] show ?thesis
  proof (elim disjE conjE bexE)
    assume h: "length (strip s) = 13" "length ?e = 5" "w = take 2 ?e @ CHR '','' # drop 2 ?e"
    then have "take 2 ?e \<noteq> []" and "drop 2 ?e \<noteq> []" by auto
    from weight_string_ok_digits [OF td(1) [of 2] td(2) [of 2] this] h show ?thesis by simp
  next
    assume "26 \<le> length (strip s)" "slice 16 20 (strip s) = ''3100''" "w = ?e"
    then show ?thesis using count_list_digits [OF assms(2)] by simp
  next
    fix k
    assume h: "26 \<le> length (strip s)" "length ?e = 6" "slice 16 20 (strip s) \<noteq> ''3100''"
      "k \<in> {1, 2, 3, 4, 5}" "w = take k ?e @ CHR '','' # drop k ?e"
    then have "take k ?e \<noteq> []" and "drop k ?e \<noteq> []" by auto
    from weight_string_ok_digits [OF td(1) [of k] td(2) [of k] this] h show ?thesis by simp
  qed
qed

lemma strip_ex3100: "strip ''0000000000000000310012345600'' = ''0000000000000000310012345600''"
  by (simp add: strip_def isspace_def)

lemma strip_exabc: "strip ''abcdefghijklm'' = ''abcdefghijklm''"
  by (simp add: strip_def isspace_def)

lemma formater_ex3103: "formater_ligne (Some ''0000000000000000310312345600'') = Some ''123,456''"
  by (simp add: strip_ex3103 slice_def Let_def startswith_def formats_map_def)

lemma formater_ex3100: "formater_ligne (Some ''0000000000000000310012345600'') = Some ''123456''"
  by (simp add: strip_ex3100 slice_def Let_def startswith_def formats_map_def)

theorem formater_ligne_well_formed_witness:
  "formater_ligne (Some ''0000000000000000310312345600'') = Some ''123,456'' \<and>
   list_all isdigit (extracted (strip ''0000000000000000310312345600'')) \<and>
   weight_string_ok ''123,456'' \<and>
   formater_ligne (Some ''0000000000000000310012345600'') = Some ''123456'' \<and>
   list_all isdigit (extracted (strip ''0000000000000000310012345600'')) \<and>
   count_list ''123456'' (CHR '','') = 0"
proof -
  have a: "list_all isdigit (extracted (strip ''0000000000000000310312345600''))"
    by (simp add: strip_ex3103 extracted_def slice_def isdigit_def)
  have b: "list_all isdigit (extracted (strip ''0000000000000000310012345600''))"
    by (simp add: strip_ex3100 extracted_def slice_def isdigit_def)
  have c: "weight_string_ok ''123,456''"
    using formater_ligne_well_formed [OF formater_ex3103 a]
    by (simp add: strip_ex3103 slice_def)
  have d: "count_list ''123456'' (CHR '','') = 0"
    using formater_ligne_well_formed [OF formater_ex3100 b]
    by (simp add: strip_ex3100 slice_def extracted_def)
  show ?thesis using a b c d formater_ex3103 formater_ex3100 by simp
qed

text \<open>
  C5 as stated covers every match. Under format code 3100 the result has no comma,
  and the decoder never checks that the extracted characters are digits: the
  13-character input abcdefghijklm gives hi,jkl.
\<close>

theorem formater_ligne_well_formed_counterexample:
  "formater_ligne (Some ''0000000000000000310012345600'') = Some ''123456'' \<and>
   \<not> weight_string_ok ''123456'' \<and>
   formater_ligne (Some ''abcdefghijklm'') = Some ''hi,jkl'' \<and>
   \<not> weight_string_ok ''hi,jkl''"
proof -
  have "formater_ligne (Some ''abcdefghijklm'') = Some ''hi,jkl''"
    by (simp add: strip_exabc slice_def Let_def)
  moreover have "\<not> weight_string_ok ''123456''"
    by (simp add: weight_string_ok_def)
  moreover have "\<not> weight_string_ok ''hi,jkl''"
    by (simp add: weight_string_ok_def isdigit_def)
  ultimately show ?thesis using formater_ex3100 by simp
qed

section \<open>Normalised values and the aggregate\<close>

subsection \<open>Trimming\<close>

lemma strip_id:
  assumes "s \<noteq> []" and "\<not> isspace (hd s)" and "\<not> isspace (last s)"
  shows "strip s = s"
proof -
  have a: "dropWhile isspace s = s"
    using assms(2) by (simp add: dropWhile_eq_self_iff)
  have "dropWhile isspace (rev s) = rev s"
    using assms(1,3) by (simp add: dropWhile_eq_self_iff hd_rev)
  then show ?thesis by (simp add: strip_def a)
qed

lemma strip_num_id:
  assumes "s \<noteq> []" and "\<not> isspace_num (hd s)" and "\<not> isspace_num (last s)"
  shows "strip_num s = s"
proof -
  have a: "dropWhile isspace_num s = s"
    using assms(2) by (simp add: dropWhile_eq_self_iff)
  have "dropWhile isspace_num (rev s) = rev s"
    using assms(1,3) by (simp add: dropWhile_eq_self_iff hd_rev)
  then show ?thesis by (simp add: strip_num_def a)
qed

lemma strip_ends:
  assumes "strip s \<noteq> []"
  shows "\<not> isspace (hd (strip s))" and "\<not> isspace (last (strip s))"
proof -
  let ?t = "dropWhile isspace s"
  let ?u = "dropWhile isspace (rev ?t)"
  have u: "?u \<noteq> []" using assms by (simp add: strip_def)
  have t: "?t \<noteq> []"
  proof
    assume a: "?t = []"
    have "?u = []" unfolding a by simp
    with u show False ..
  qed
  have "last (strip s) = hd ?u" by (simp add: strip_def last_rev)
  then show "\<not> isspace (last (strip s))" using hd_dropWhile [OF u] by simp
  from u obtain x where "x \<in> set (rev ?t)" and "\<not> isspace x"
    by (auto simp: dropWhile_eq_Nil_conv)
  then have lu: "last ?u = last (rev ?t)" by (rule dropWhile_last)
  have "hd (strip s) = last ?u" by (simp add: strip_def hd_rev)
  also have "\<dots> = last (rev ?t)" by (rule lu)
  also have "\<dots> = hd ?t" by (simp add: last_rev)
  finally show "\<not> isspace (hd (strip s))" using hd_dropWhile [OF t] by simp
qed

lemma strip_strip: "strip (strip s) = strip s"
proof (cases "strip s = []")
  case True
  have "strip [] = []" by (simp add: strip_def)
  with True show ?thesis by simp
next
  case False
  then show ?thesis by (intro strip_id strip_ends)
qed

subsection \<open>Digits\<close>

lemma isdigit_chars:
  assumes "isdigit c"
  shows "\<not> isspace c" and "c \<noteq> CHR ''-''" and "c \<noteq> CHR ''+''" and "c \<noteq> CHR ''_''"
    and "c \<noteq> CHR '',''" and "c \<noteq> CHR ''.''" and "lower c = c"
    and "c \<noteq> CHR ''i''" and "c \<noteq> CHR ''n''"
    and "0 \<le> digit_val c" and "digit_val c \<le> 9" and "\<not> isspace_num c"
  using assms unfolding isdigit_def digit_val_def isspace_def isspace_num_def lower_def by auto

lemma int_of_digits_snoc: "int_of_digits (ds @ [c]) = 10 * int_of_digits ds + digit_val c"
  by (simp add: int_of_digits_def)

lemma int_of_digits_bounds:
  "list_all isdigit ds \<Longrightarrow> 0 \<le> int_of_digits ds \<and> int_of_digits ds < 10 ^ length ds"
proof (induction ds rule: rev_induct)
  case Nil
  then show ?case by (simp add: int_of_digits_def)
next
  case (snoc c ds)
  then have d: "isdigit c" and ih: "0 \<le> int_of_digits ds" "int_of_digits ds < 10 ^ length ds"
    by simp_all
  from ih(2) have "int_of_digits ds + 1 \<le> 10 ^ length ds" by simp
  then have "10 * (int_of_digits ds + 1) \<le> 10 * 10 ^ length ds" by simp
  then show ?case
    using isdigit_chars(10,11) [OF d] ih(1) by (simp add: int_of_digits_snoc)
qed

subsection \<open>Parsing digit strings\<close>

lemma takeWhile_digits_point:
  "list_all isdigit a \<Longrightarrow> takeWhile isdigit (a @ CHR ''.'' # b) = a"
  by (induction a) (auto simp: isdigit_def)

lemma dropWhile_digits_point:
  "list_all isdigit a \<Longrightarrow> dropWhile isdigit (a @ CHR ''.'' # b) = CHR ''.'' # b"
  by (induction a) (auto simp: isdigit_def)

lemma takeWhile_all_digits: "list_all isdigit b \<Longrightarrow> takeWhile isdigit b = b"
  by (simp add: list_all_iff)

lemma dropWhile_all_digits: "list_all isdigit b \<Longrightarrow> dropWhile isdigit b = []"
  by (simp add: list_all_iff)

lemma parse_number_decimal:
  assumes "list_all isdigit a" and "list_all isdigit b" and "b \<noteq> []"
  shows "parse_number (a @ CHR ''.'' # b) =
           Some (of_int (int_of_digits (a @ b)) * (1 / of_int (10 ^ length b)))"
  using assms
  by (simp add: parse_number_def takeWhile_digits_point dropWhile_digits_point
      takeWhile_all_digits dropWhile_all_digits parse_exponent_def Let_def)

lemma parse_number_digits:
  assumes "list_all isdigit a" and "a \<noteq> []"
  shows "parse_number a = Some (of_int (int_of_digits a))"
  using assms
  by (simp add: parse_number_def takeWhile_all_digits dropWhile_all_digits
      parse_exponent_def Let_def)

lemma py_float_plain:
  assumes "s \<noteq> []" and "isdigit (hd s)" and "isdigit (last s)"
    and "CHR ''_'' \<notin> set s"
  shows "py_float s = map_option round_double (parse_number s)"
proof -
  have st: "strip_num s = s"
    using assms(1) isdigit_chars(12) [OF assms(2)] isdigit_chars(12) [OF assms(3)]
    by (rule strip_num_id)
  have fl: "filter (\<lambda>c. c \<noteq> CHR ''_'') s = s"
    using assms(4) by (auto simp: filter_id_conv)
  have hdl: "hd (map lower s) = hd s"
    using assms(1) isdigit_chars(7) [OF assms(2)] by (simp add: hd_map)
  have ni: "map lower s \<noteq> ''inf''" "map lower s \<noteq> ''infinity''" "map lower s \<noteq> ''nan''"
    using hdl isdigit_chars(8,9) [OF assms(2)] by auto
  show ?thesis
    using assms(4) isdigit_chars(2,3) [OF assms(2)] ni
    by (simp add: py_float_def st fl Let_def split: option.splits)
qed

lemma py_float_decimal:
  assumes "list_all isdigit a" and "list_all isdigit b" and "a \<noteq> []" and "b \<noteq> []"
  shows "py_float (a @ CHR ''.'' # b) =
           Some (round_double (of_int (int_of_digits (a @ b)) * (1 / of_int (10 ^ length b))))"
proof -
  have h: "isdigit (hd (a @ CHR ''.'' # b))"
    using assms(1,3) by (cases a) simp_all
  have l: "isdigit (last (a @ CHR ''.'' # b))"
    using assms(2,4) by (simp add: list_all_iff)
  have u: "CHR ''_'' \<notin> set (a @ CHR ''.'' # b)"
    using assms(1,2) isdigit_chars(4) by (auto simp: list_all_iff)
  show ?thesis
    using py_float_plain [OF _ h l u] parse_number_decimal [OF assms(1,2,4)] by simp
qed

lemma py_float_digits:
  assumes "list_all isdigit a" and "a \<noteq> []"
  shows "py_float a = Some (round_double (of_int (int_of_digits a)))"
proof -
  have h: "isdigit (hd a)" using assms by (cases a) simp_all
  have l: "isdigit (last a)" using assms by (simp add: list_all_iff)
  have u: "CHR ''_'' \<notin> set a"
    using assms(1) isdigit_chars(4) by (auto simp: list_all_iff)
  show ?thesis
    using py_float_plain [OF assms(2) h l u] parse_number_digits [OF assms] by simp
qed

subsection \<open>Rounding a small non-negative number\<close>

lemma pow2_pos: "0 < pow2 e"
  by (simp add: pow2_def)

lemma pow2_le_1: "e \<le> 0 \<Longrightarrow> pow2 e \<le> 1"
  by (simp add: pow2_def)

lemma round_half_even_cases:
  "round_half_even x = \<lfloor>x\<rfloor> \<or> round_half_even x = \<lfloor>x\<rfloor> + 1"
  by (simp add: round_half_even_def Let_def)

lemma round_half_even_le: "of_int (round_half_even x) \<le> x + 1"
proof -
  have f: "of_int \<lfloor>x\<rfloor> \<le> x" by (rule of_int_floor_le)
  from round_half_even_cases [of x] show ?thesis
  proof
    assume a: "round_half_even x = \<lfloor>x\<rfloor>"
    have "of_int \<lfloor>x\<rfloor> \<le> x + 1" using f by linarith
    then show ?thesis unfolding a .
  next
    assume a: "round_half_even x = \<lfloor>x\<rfloor> + 1"
    have "of_int (\<lfloor>x\<rfloor> + 1) \<le> x + 1" by simp
    then show ?thesis unfolding a .
  qed
qed

lemma round_half_even_nonneg: "0 \<le> x \<Longrightarrow> 0 \<le> round_half_even x"
proof -
  assume "0 \<le> x"
  then have "0 \<le> \<lfloor>x\<rfloor>" by simp
  with round_half_even_cases [of x] show ?thesis by auto
qed

lemma ilog2_le_52:
  assumes "x < 2 ^ 53"
  shows "ilog2 x \<le> 52"
proof (cases "1 \<le> x")
  case True
  have "\<lfloor>x\<rfloor> < 2 ^ 53" using assms by (simp add: floor_less_iff)
  then have "bitlen \<lfloor>x\<rfloor> \<le> 53"
    using bitlen_le_iff_power [of "\<lfloor>x\<rfloor>" 53] by simp
  with True show ?thesis by (simp add: ilog2_def)
next
  case False
  then show ?thesis
    using bitlen_nonneg [of "\<lceil>1 / x\<rceil> - 1"] by (simp add: ilog2_def)
qed

lemma round_pos_small:
  assumes "0 < x" and "x < 2 ^ 53"
  shows "0 \<le> round_pos x" and "round_pos x \<le> x + 1"
proof -
  define e where "e = max (ilog2 x - 52) (- 1074)"
  have e0: "e \<le> 0" using ilog2_le_52 [OF assms(2)] by (simp add: e_def)
  have rp: "round_pos x = of_int (round_half_even (x / pow2 e)) * pow2 e"
    by (simp add: round_pos_def e_def Let_def)
  have q: "0 \<le> x / pow2 e" using assms(1) pow2_pos [of e] by simp
  show "0 \<le> round_pos x"
    unfolding rp using round_half_even_nonneg [OF q] pow2_pos [of e] by simp
  have "of_int (round_half_even (x / pow2 e)) * pow2 e \<le> (x / pow2 e + 1) * pow2 e"
    using round_half_even_le [of "x / pow2 e"] pow2_pos [of e]
    by (intro mult_right_mono) simp_all
  also have "\<dots> = x + pow2 e" using pow2_pos [of e] by (simp add: field_simps)
  also have "\<dots> \<le> x + 1" using pow2_le_1 [OF e0] by simp
  finally show "round_pos x \<le> x + 1" unfolding rp .
qed

lemma round_double_small:
  assumes "0 \<le> x" and "x < 2 ^ 53"
  shows "\<exists>q. round_double x = Finite q \<and> 0 \<le> q"
proof (cases "x = 0")
  case True
  then show ?thesis by (simp add: round_double_def)
next
  case False
  with assms(1) have pos: "0 < x" by simp
  have "round_pos x \<le> x + 1" by (rule round_pos_small(2) [OF pos assms(2)])
  also have "\<dots> < 2 ^ 53 + 1" using assms(2) by simp
  also have "\<dots> < (2::rat) ^ 1024" by simp
  finally have "\<not> pow2 1024 \<le> round_pos x" by (simp add: pow2_def)
  then show ?thesis
    using pos round_pos_small(1) [OF pos assms(2)] by (simp add: round_double_def)
qed

subsection \<open>Normalising a decoded weight\<close>

lemma replace_comma_digits:
  "list_all isdigit a \<Longrightarrow> replace_char (CHR '','') (CHR ''.'') a = a"
  unfolding replace_char_def
  by (induction a) (auto dest: isdigit_chars(5))

lemma valeur_decimal:
  assumes "list_all isdigit a" and "list_all isdigit b" and "a \<noteq> []" and "b \<noteq> []"
  shows "valeur_formatee_vers_float (Some (a @ CHR '','' # b)) =
           round_double (of_int (int_of_digits (a @ b)) * (1 / of_int (10 ^ length b)))"
proof -
  have h: "\<not> isspace (hd (a @ CHR '','' # b))"
    using assms(1,3) isdigit_chars(1) by (cases a) simp_all
  have l: "\<not> isspace (last (a @ CHR '','' # b))"
    using assms(2,4) isdigit_chars(1) by (simp add: list_all_iff)
  have st: "strip (a @ CHR '','' # b) = a @ CHR '','' # b"
    using _ h l by (rule strip_id) simp
  have rp: "replace_char (CHR '','') (CHR ''.'') (a @ CHR '','' # b) = a @ CHR ''.'' # b"
    using replace_comma_digits [OF assms(1)] replace_comma_digits [OF assms(2)]
    by (simp add: replace_char_def)
  show ?thesis
    by (simp add: st rp py_float_decimal [OF assms] Let_def)
qed

lemma valeur_digits:
  assumes "list_all isdigit a" and "a \<noteq> []"
  shows "valeur_formatee_vers_float (Some a) = round_double (of_int (int_of_digits a))"
proof -
  have h: "\<not> isspace (hd a)"
    using assms isdigit_chars(1) by (cases a) simp_all
  have l: "\<not> isspace (last a)"
    using assms isdigit_chars(1) by (simp add: list_all_iff)
  have st: "strip a = a"
    using assms(2) h l by (rule strip_id)
  show ?thesis
    using assms(2)
    by (simp add: st replace_comma_digits [OF assms(1)] py_float_digits [OF assms] Let_def)
qed

lemma decimal_value_bounds:
  assumes "list_all isdigit ds" and "length ds \<le> 15"
  shows "0 \<le> (of_int (int_of_digits ds) :: rat) * (1 / of_int (10 ^ k))"
    and "(of_int (int_of_digits ds) :: rat) * (1 / of_int (10 ^ k)) < 2 ^ 53"
proof -
  let ?n = "int_of_digits ds"
  have n0: "0 \<le> ?n" and n1: "?n < 10 ^ length ds"
    using int_of_digits_bounds [OF assms(1)] by simp_all
  have "(10::int) ^ length ds \<le> 10 ^ 15"
    using assms(2) by (intro power_increasing) simp_all
  with n1 have n2: "?n < 10 ^ 15" by linarith
  have p: "(1::rat) \<le> of_int (10 ^ k)" by simp
  show "0 \<le> (of_int ?n :: rat) * (1 / of_int (10 ^ k))"
    using n0 by simp
  have q: "1 / (of_int (10 ^ k) :: rat) \<le> 1"
    using p by (simp add: divide_le_eq_1)
  have "(of_int ?n :: rat) * (1 / of_int (10 ^ k)) \<le> of_int ?n * 1"
    using n0 q by (intro mult_left_mono) simp_all
  then have "(of_int ?n :: rat) * (1 / of_int (10 ^ k)) \<le> of_int ?n"
    by simp
  also have "\<dots> < of_int (10 ^ 15)" using n2 by (simp only: of_int_less_iff)
  also have "\<dots> < (2::rat) ^ 53" by simp
  finally show "(of_int ?n :: rat) * (1 / of_int (10 ^ k)) < 2 ^ 53" .
qed

lemma valeur_decimal_finite:
  assumes "list_all isdigit a" and "list_all isdigit b" and "a \<noteq> []" and "b \<noteq> []"
    and "length a + length b \<le> 15"
  shows "\<exists>q. valeur_formatee_vers_float (Some (a @ CHR '','' # b)) = Finite q \<and> 0 \<le> q"
proof -
  have d: "list_all isdigit (a @ b)" using assms(1,2) by simp
  have l: "length (a @ b) \<le> 15" using assms(5) by simp
  show ?thesis
    unfolding valeur_decimal [OF assms(1-4)]
    using decimal_value_bounds [OF d l, of "length b"] by (intro round_double_small)
qed

lemma valeur_digits_finite:
  assumes "list_all isdigit a" and "a \<noteq> []" and "length a \<le> 15"
  shows "\<exists>q. valeur_formatee_vers_float (Some a) = Finite q \<and> 0 \<le> q"
proof -
  have "0 \<le> (of_int (int_of_digits a) :: rat)" "(of_int (int_of_digits a) :: rat) < 2 ^ 53"
    using decimal_value_bounds [OF assms(1,3), of 0] by simp_all
  then show ?thesis
    unfolding valeur_digits [OF assms(1,2)] by (intro round_double_small)
qed

text \<open>
  C8 (as amended). When the decoder matches and the characters it extracts are all
  digits, normalising its output gives a finite float that is not negative.
\<close>

theorem valeur_poids_finite_nonneg:
  assumes "formater_ligne (Some s) = Some w"
    and "list_all isdigit (extracted (strip s))"
  shows "\<exists>q. valeur_formatee_vers_float (Some w) = Finite q \<and> 0 \<le> q"
proof -
  let ?e = "extracted (strip s)"
  have td: "list_all isdigit (take k ?e)" "list_all isdigit (drop k ?e)" for k
    using list_all_take_drop [OF assms(2)] by simp_all
  from formater_ligne_cases [OF assms(1)] show ?thesis
  proof (elim disjE conjE bexE)
    assume h: "length ?e = 5" "w = take 2 ?e @ CHR '','' # drop 2 ?e"
    then have "take 2 ?e \<noteq> []" and "drop 2 ?e \<noteq> []"
      and "length (take 2 ?e) + length (drop 2 ?e) \<le> 15" by auto
    from valeur_decimal_finite [OF td(1) [of 2] td(2) [of 2] this] h(2) show ?thesis by simp
  next
    assume h: "length ?e = 6" "w = ?e"
    then have "?e \<noteq> []" and "length ?e \<le> 15" by auto
    from valeur_digits_finite [OF assms(2) this] h(2) show ?thesis by simp
  next
    fix k
    assume h: "length ?e = 6" "k \<in> {1, 2, 3, 4, 5}" "w = take k ?e @ CHR '','' # drop k ?e"
    then have "take k ?e \<noteq> []" and "drop k ?e \<noteq> []"
      and "length (take k ?e) + length (drop k ?e) \<le> 15" by auto
    from valeur_decimal_finite [OF td(1) [of k] td(2) [of k] this] h(3) show ?thesis by simp
  qed
qed

lemma valeur_ex_1_5: "valeur_formatee_vers_float (Some ''1,5'') = Finite (3 / 2)"
  by code_simp

lemma valeur_ex_empty: "valeur_formatee_vers_float (Some '''') = Finite 0"
  by (simp add: strip_def)

lemma py_float_abc: "py_float ''abc'' = None"
  by code_simp

lemma strip_abc: "strip ''abc'' = ''abc''"
  by (simp add: strip_def isspace_def)

lemma valeur_ex_abc: "valeur_formatee_vers_float (Some ''abc'') = Finite 0"
  by (simp add: strip_abc replace_char_def py_float_abc)

text \<open>
  C7. The normaliser never fails: it returns 0.0 for a null input and for an input
  that is empty once trimmed; otherwise it replaces every comma by a point and returns
  the parsed float, or 0.0 when the text is not a float literal. On digits, a comma and
  digits the result is the double nearest to that decimal number. In particular 1,5
  gives 1.5, the empty string gives 0.0 and abc gives 0.0.
\<close>

theorem valeur_formatee_vers_float_spec:
  "valeur_formatee_vers_float None = Finite 0 \<and>
   (strip s = [] \<longrightarrow> valeur_formatee_vers_float (Some s) = Finite 0) \<and>
   (strip s \<noteq> [] \<longrightarrow>
      valeur_formatee_vers_float (Some s) =
        (case py_float (replace_char (CHR '','') (CHR ''.'') (strip s)) of
           Some v \<Rightarrow> v
         | None \<Rightarrow> Finite 0)) \<and>
   (list_all isdigit a \<and> list_all isdigit b \<and> a \<noteq> [] \<and> b \<noteq> [] \<longrightarrow>
      valeur_formatee_vers_float (Some (a @ CHR '','' # b)) =
        round_double (of_int (int_of_digits (a @ b)) * (1 / of_int (10 ^ length b)))) \<and>
   valeur_formatee_vers_float (Some ''1,5'') = Finite (3 / 2) \<and>
   valeur_formatee_vers_float (Some '''') = Finite 0 \<and>
   valeur_formatee_vers_float (Some ''abc'') = Finite 0"
  using valeur_decimal [of a b] valeur_ex_1_5 valeur_ex_empty valeur_ex_abc
  by (simp add: Let_def)

theorem valeur_formatee_vers_float_spec_witness:
  "strip ''  '' = [] \<and> valeur_formatee_vers_float (Some ''  '') = Finite 0 \<and>
   strip ''abc'' \<noteq> [] \<and> py_float (replace_char (CHR '','') (CHR ''.'') (strip ''abc'')) = None \<and>
   valeur_formatee_vers_float (Some ''abc'') = Finite 0 \<and>
   list_all isdigit ''12'' \<and> list_all isdigit ''5'' \<and>
   valeur_formatee_vers_float (Some ''12,5'') = Finite (25 / 2)"
proof -
  have a: "strip ''  '' = []" by (simp add: strip_def isspace_def)
  have b: "strip ''abc'' \<noteq> []" by (simp add: strip_abc)
  have c: "py_float (replace_char (CHR '','') (CHR ''.'') (strip ''abc'')) = None"
    by (simp add: strip_abc replace_char_def py_float_abc)
  have d: "list_all isdigit ''12''" "list_all isdigit ''5''" by (simp_all add: isdigit_def)
  have e: "round_double (of_int (int_of_digits (''12'' @ ''5'')) * (1 / of_int (10 ^ length ''5''))) =
           Finite (25 / 2)"
    by code_simp
  have r1: "valeur_formatee_vers_float (Some ''  '') = Finite 0"
    using valeur_formatee_vers_float_spec [of "''  ''" "''12''" "''5''"] a by blast
  have r2: "valeur_formatee_vers_float (Some ''abc'') = Finite 0"
    using valeur_formatee_vers_float_spec [of "''abc''" "''12''" "''5''"] b c by simp
  have r3: "valeur_formatee_vers_float (Some ''12,5'') = Finite (25 / 2)"
    using valeur_formatee_vers_float_spec [of "''abc''" "''12''" "''5''"] d e by simp
  show ?thesis using a b c d r1 r2 r3 by simp
qed

theorem valeur_poids_finite_nonneg_witness:
  "formater_ligne (Some ''0000000000000000310312345600'') = Some ''123,456'' \<and>
   list_all isdigit (extracted (strip ''0000000000000000310312345600'')) \<and>
   (\<exists>q. valeur_formatee_vers_float (Some ''123,456'') = Finite q \<and> 0 \<le> q)"
proof -
  have a: "list_all isdigit (extracted (strip ''0000000000000000310312345600''))"
    by (simp add: strip_ex3103 extracted_def slice_def isdigit_def)
  show ?thesis
    using formater_ex3103 a valeur_poids_finite_nonneg [OF formater_ex3103 a] by simp
qed

lemma strip_ex_neg: "strip ''0000000-15000'' = ''0000000-15000''"
  by (simp add: strip_def isspace_def)

text \<open>
  C8 as stated covers every match. The decoder does not check that the extracted
  characters are digits: the 13-character input 0000000-15000 decodes to -1,500, and
  its normalised value is -1.5.
\<close>

theorem valeur_poids_finite_nonneg_counterexample:
  "formater_ligne (Some ''0000000-15000'') = Some ''-1,500'' \<and>
   valeur_formatee_vers_float (Some ''-1,500'') = Finite (- (3 / 2)) \<and>
   (- (3 / 2) :: rat) < 0"
proof -
  have a: "formater_ligne (Some ''0000000-15000'') = Some ''-1,500''"
    by (simp add: strip_ex_neg slice_def Let_def)
  have b: "valeur_formatee_vers_float (Some ''-1,500'') = Finite (- (3 / 2))"
    by code_simp
  show ?thesis using a b by simp
qed

subsection \<open>The aggregation loop\<close>

lemma formater_ligne_strip: "formater_ligne (Some (strip s)) = formater_ligne (Some s)"
  by (simp add: strip_strip)

lemma valeur_strip: "valeur_formatee_vers_float (Some (strip s)) = valeur_formatee_vers_float (Some s)"
  by (simp add: strip_strip)

lemma formater_ligne_nonempty: "formater_ligne (Some s) = Some w \<Longrightarrow> w \<noteq> []"
  using formater_ligne_cases [of s w] by auto

lemma valeur_cellule_strip: "valeur_cellule (strip brut) = valeur_normalisee (Some brut)"
proof (cases "formater_ligne (Some brut)")
  case None
  then show ?thesis
    by (simp add: valeur_cellule_def valeur_normalisee_def texte_effectif_def truthy_def
        formater_ligne_strip valeur_strip Let_def del: formater_ligne.simps valeur_formatee_vers_float.simps)
next
  case (Some w)
  then show ?thesis
    using formater_ligne_nonempty [OF Some]
    by (simp add: valeur_cellule_def valeur_normalisee_def texte_effectif_def truthy_def
        formater_ligne_strip Let_def del: formater_ligne.simps valeur_formatee_vers_float.simps)
qed

lemma boucle_Cons:
  "boucle r (c # cs) st =
     boucle (r + 1) cs
       (if cellule_vide c then st
        else st\<lparr>premiere_ligne_erreur :=
                   (if anormale c \<and> premiere_ligne_erreur st = None then Some (r + 1)
                    else premiere_ligne_erreur st),
                 total := fadd (total st) (valeur_normalisee c)\<rparr>)"
proof (cases c)
  case None
  then show ?thesis by (simp add: cellule_vide_def)
next
  case (Some brut)
  show ?thesis
  proof (cases "strip brut = []")
    case True
    with Some show ?thesis by (simp add: cellule_vide_def)
  next
    case False
    with Some show ?thesis
      by (simp add: cellule_vide_def anormale_def valeur_cellule_strip Let_def)
  qed
qed

lemma boucle_total:
  "total (boucle r cs st) =
     foldl fadd (total st) (map valeur_normalisee (filter (\<lambda>c. \<not> cellule_vide c) cs))"
proof (induction cs arbitrary: r st)
  case Nil
  show ?case by simp
next
  case (Cons c cs)
  show ?case
    by (simp only: boucle_Cons Cons.IH) simp
qed

lemma boucle_premiere_kept:
  "premiere_ligne_erreur st = Some k \<Longrightarrow> premiere_ligne_erreur (boucle r cs st) = Some k"
proof (induction cs arbitrary: r st)
  case Nil
  then show ?case by simp
next
  case (Cons c cs)
  show ?case
    by (simp only: boucle_Cons) (rule Cons.IH, simp add: Cons.prems)
qed

lemma boucle_premiere_none:
  "premiere_ligne_erreur st = None \<Longrightarrow> (\<And>i. i < length cs \<Longrightarrow> \<not> anormale (cs ! i)) \<Longrightarrow>
   premiere_ligne_erreur (boucle r cs st) = None"
proof (induction cs arbitrary: r st)
  case Nil
  then show ?case by simp
next
  case (Cons c cs)
  have c: "\<not> anormale c" using Cons.prems(2) [of 0] by simp
  have rest: "\<not> anormale (cs ! i)" if "i < length cs" for i
    using Cons.prems(2) [of "Suc i"] that by simp
  show ?case
    by (simp only: boucle_Cons) (rule Cons.IH, simp add: Cons.prems(1) c, rule rest)
qed

lemma boucle_premiere_first:
  "premiere_ligne_erreur st = None \<Longrightarrow> i < length cs \<Longrightarrow> anormale (cs ! i) \<Longrightarrow>
   (\<And>j. j < i \<Longrightarrow> \<not> anormale (cs ! j)) \<Longrightarrow>
   premiere_ligne_erreur (boucle r cs st) = Some (r + i + 1)"
proof (induction cs arbitrary: r st i)
  case Nil
  then show ?case by simp
next
  case (Cons c cs)
  show ?case
  proof (cases i)
    case 0
    with Cons.prems(3) have a: "anormale c" by simp
    then have nv: "\<not> cellule_vide c" by (simp add: anormale_def)
    show ?thesis
      by (simp only: boucle_Cons) (rule boucle_premiere_kept, simp add: a nv Cons.prems(1) 0)
  next
    case (Suc m)
    have c: "\<not> anormale c" using Cons.prems(4) [of 0] Suc by simp
    have m: "m < length cs" "anormale (cs ! m)" using Cons.prems(2,3) Suc by simp_all
    have rest: "\<not> anormale (cs ! j)" if "j < m" for j
      using Cons.prems(4) [of "Suc j"] that Suc by simp
    have "premiere_ligne_erreur
            (boucle (r + 1) cs
              (if cellule_vide c then st
               else st\<lparr>premiere_ligne_erreur :=
                          (if anormale c \<and> premiere_ligne_erreur st = None then Some (r + 1)
                           else premiere_ligne_erreur st),
                        total := fadd (total st) (valeur_normalisee c)\<rparr>)) = Some (r + 1 + m + 1)"
      by (rule Cons.IH [OF _ m rest]) (simp_all add: Cons.prems(1) c)
    then show ?thesis by (simp only: boucle_Cons) (simp add: Suc)
  qed
qed

lemma premiere_none_iff:
  "premiere_ligne_erreur (mettre_a_jour_total cs) = None \<longleftrightarrow>
     (\<forall>r<length cs. \<not> anormale (cs ! r))"
proof
  assume r: "\<forall>r<length cs. \<not> anormale (cs ! r)"
  show "premiere_ligne_erreur (mettre_a_jour_total cs) = None"
    unfolding mettre_a_jour_total_def using r by (intro boucle_premiere_none) simp_all
next
  assume n: "premiere_ligne_erreur (mettre_a_jour_total cs) = None"
  show "\<forall>r<length cs. \<not> anormale (cs ! r)"
  proof (rule ccontr)
    assume "\<not> (\<forall>r<length cs. \<not> anormale (cs ! r))"
    then have "\<exists>i. i < length cs \<and> anormale (cs ! i)" by blast
    then obtain i where i: "i < length cs \<and> anormale (cs ! i)"
      and least: "\<forall>j<i. \<not> (j < length cs \<and> anormale (cs ! j))"
      using exists_least_iff [of "\<lambda>i. i < length cs \<and> anormale (cs ! i)"] by blast
    have "\<not> anormale (cs ! j)" if "j < i" for j using least i that by auto
    then have "premiere_ligne_erreur (mettre_a_jour_total cs) = Some (0 + i + 1)"
      unfolding mettre_a_jour_total_def using i by (intro boucle_premiere_first) simp_all
    with n show False by simp
  qed
qed

lemma premiere_some_iff:
  "premiere_ligne_erreur (mettre_a_jour_total cs) = Some k \<longleftrightarrow>
     (1 \<le> k \<and> k \<le> length cs \<and> anormale (cs ! (k - 1)) \<and> (\<forall>r<k - 1. \<not> anormale (cs ! r)))"
proof
  assume r: "1 \<le> k \<and> k \<le> length cs \<and> anormale (cs ! (k - 1)) \<and> (\<forall>r<k - 1. \<not> anormale (cs ! r))"
  then have "premiere_ligne_erreur (mettre_a_jour_total cs) = Some (0 + (k - 1) + 1)"
    unfolding mettre_a_jour_total_def by (intro boucle_premiere_first) auto
  with r show "premiere_ligne_erreur (mettre_a_jour_total cs) = Some k" by simp
next
  assume s: "premiere_ligne_erreur (mettre_a_jour_total cs) = Some k"
  then have "\<not> (\<forall>r<length cs. \<not> anormale (cs ! r))"
    using premiere_none_iff [of cs] by simp
  then have "\<exists>i. i < length cs \<and> anormale (cs ! i)" by blast
  then obtain i where i: "i < length cs \<and> anormale (cs ! i)"
    and least: "\<forall>j<i. \<not> (j < length cs \<and> anormale (cs ! j))"
    using exists_least_iff [of "\<lambda>i. i < length cs \<and> anormale (cs ! i)"] by blast
  have nj: "\<not> anormale (cs ! j)" if "j < i" for j using least i that by auto
  then have "premiere_ligne_erreur (mettre_a_jour_total cs) = Some (0 + i + 1)"
    unfolding mettre_a_jour_total_def using i by (intro boucle_premiere_first) simp_all
  with s have "k = i + 1" by simp
  with i nj show "1 \<le> k \<and> k \<le> length cs \<and> anormale (cs ! (k - 1)) \<and> (\<forall>r<k - 1. \<not> anormale (cs ! r))"
    by simp
qed

lemma total_sum:
  "total (mettre_a_jour_total cs) =
     foldl fadd (Finite 0) (map valeur_normalisee (filter (\<lambda>c. \<not> cellule_vide c) cs))"
  by (simp add: mettre_a_jour_total_def boucle_total)

lemma val_3_0: "valeur_normalisee (Some ''3,0'') = Finite 3"
  by code_simp

lemma val_0_005:
  "valeur_normalisee (Some ''0,005'') = Finite (5764607523034235 / 1152921504606846976)"
  by code_simp

lemma val_10_0: "valeur_normalisee (Some ''10,0'') = Finite 10"
  by code_simp

lemma val_60: "valeur_normalisee (Some ''60'') = Finite 60"
  by code_simp

lemma vide_ex:
  "\<not> cellule_vide (Some ''3,0'')" "\<not> cellule_vide (Some ''0,005'')"
  "\<not> cellule_vide (Some ''10,0'')" "\<not> cellule_vide (Some ''60'')"
  "cellule_vide None" "cellule_vide (Some ''  '')"
  by (simp_all add: cellule_vide_def strip_def isspace_def)

lemma suspecte_ex:
  "\<not> suspecte (Finite 3)" "suspecte (Finite (5764607523034235 / 1152921504606846976))"
  "\<not> suspecte (Finite 10)" "suspecte (Finite 60)"
  by code_simp+

lemma sum_ex1:
  "foldl fadd (Finite 0) [Finite 3, Finite (5764607523034235 / 1152921504606846976), Finite 10] =
     Finite (3660582072122081 / 281474976710656)"
  by code_simp

lemma sum_ex2:
  "foldl fadd (Finite 0) [Finite 3, Finite 60, Finite (5764607523034235 / 1152921504606846976)] =
     Finite (8867165453827441 / 140737488355328)"
  by code_simp

lemma py_float_13_005: "py_float ''13.005'' = Some (Finite (7321164144244163 / 562949953421312))"
  by code_simp

lemma total_ex1:
  "total (mettre_a_jour_total [Some ''3,0'', Some ''0,005'', Some ''10,0'']) =
     Finite (3660582072122081 / 281474976710656)"
proof -
  have f: "filter (\<lambda>c. \<not> cellule_vide c) [Some ''3,0'', Some ''0,005'', Some ''10,0''] =
             [Some ''3,0'', Some ''0,005'', Some ''10,0'']"
    by (simp add: vide_ex)
  have m: "map valeur_normalisee [Some ''3,0'', Some ''0,005'', Some ''10,0''] =
             [Finite 3, Finite (5764607523034235 / 1152921504606846976), Finite 10]"
    by (simp add: val_3_0 val_0_005 val_10_0)
  show ?thesis by (simp only: total_sum f m sum_ex1)
qed

lemma premiere_ex1:
  "premiere_ligne_erreur (mettre_a_jour_total [Some ''3,0'', Some ''0,005'', Some ''10,0'']) = Some 2"
proof -
  have a: "anormale (Some ''0,005'')"
    by (simp add: anormale_def vide_ex val_0_005 suspecte_ex)
  have b: "\<not> anormale (Some ''3,0'')"
    by (simp add: anormale_def vide_ex val_3_0 suspecte_ex)
  show ?thesis
    using a b by (simp add: premiere_some_iff)
qed

text \<open>
  C6 (as amended). For every sequence of entries, the total is the float sum, taken
  in order from 0.0, of the normalised values of the entries whose weight field is not
  empty, and the reported row is the 1-based position of the first non-empty entry
  whose normalised value is greater than 50 or strictly between 0 and 0.01; no row is
  reported exactly when there is no such entry. For the normalised values 3.0, 0.005
  and 10.0 the row is 2 and the total is the double 13.004999999999999, which is within
  1e-14 of 13.005.
\<close>

theorem mettre_a_jour_total_spec:
  "total (mettre_a_jour_total cellules) =
     foldl fadd (Finite 0)
       (map valeur_normalisee (filter (\<lambda>c. \<not> cellule_vide c) cellules)) \<and>
   (premiere_ligne_erreur (mettre_a_jour_total cellules) = None \<longleftrightarrow>
      (\<forall>r<length cellules. \<not> anormale (cellules ! r))) \<and>
   (premiere_ligne_erreur (mettre_a_jour_total cellules) = Some k \<longleftrightarrow>
      1 \<le> k \<and> k \<le> length cellules \<and> anormale (cellules ! (k - 1)) \<and>
      (\<forall>r<k - 1. \<not> anormale (cellules ! r))) \<and>
   map valeur_normalisee [Some ''3,0'', Some ''0,005'', Some ''10,0''] =
     [Finite 3, Finite (5764607523034235 / 1152921504606846976), Finite 10] \<and>
   premiere_ligne_erreur (mettre_a_jour_total [Some ''3,0'', Some ''0,005'', Some ''10,0'']) =
     Some 2 \<and>
   total (mettre_a_jour_total [Some ''3,0'', Some ''0,005'', Some ''10,0'']) =
     Finite (3660582072122081 / 281474976710656) \<and>
   \<bar>3660582072122081 / 281474976710656 - 13005 / 1000\<bar> < (1 / 10 ^ 14 :: rat)"
proof -
  have "\<bar>3660582072122081 / 281474976710656 - 13005 / 1000\<bar> < (1 / 10 ^ 14 :: rat)"
    by simp
  then show ?thesis
    using total_sum [of cellules] premiere_none_iff [of cellules] premiere_some_iff [of cellules k]
      total_ex1 premiere_ex1
    by (simp only: list.map val_3_0 val_0_005 val_10_0 simp_thms)
qed

theorem mettre_a_jour_total_spec_witness:
  "anormale ([Some ''3,0'', None, Some ''  '', Some ''60'', Some ''0,005''] ! (4 - 1)) \<and>
   \<not> anormale ([Some ''3,0'', None, Some ''  '', Some ''60'', Some ''0,005''] ! 0) \<and>
   \<not> anormale ([Some ''3,0'', None, Some ''  '', Some ''60'', Some ''0,005''] ! 1) \<and>
   \<not> anormale ([Some ''3,0'', None, Some ''  '', Some ''60'', Some ''0,005''] ! 2) \<and>
   premiere_ligne_erreur
     (mettre_a_jour_total [Some ''3,0'', None, Some ''  '', Some ''60'', Some ''0,005'']) = Some 4 \<and>
   total (mettre_a_jour_total [Some ''3,0'', None, Some ''  '', Some ''60'', Some ''0,005'']) =
     Finite (8867165453827441 / 140737488355328)"
proof -
  let ?cs = "[Some ''3,0'', None, Some ''  '', Some ''60'', Some ''0,005'']"
  have a3: "anormale (?cs ! (4 - 1))"
    by (simp add: anormale_def vide_ex val_60 suspecte_ex)
  have a0: "\<not> anormale (?cs ! 0)"
    by (simp add: anormale_def vide_ex val_3_0 suspecte_ex)
  have a1: "\<not> anormale (?cs ! 1)"
    by (simp add: anormale_def vide_ex)
  have a2: "\<not> anormale (?cs ! 2)"
    by (simp add: anormale_def vide_ex)
  have before: "\<forall>r<4 - 1. \<not> anormale (?cs ! r)"
  proof (intro allI impI)
    fix r :: nat
    assume "r < 4 - 1"
    then have "r = 0 \<or> r = 1 \<or> r = 2" by arith
    with a0 a1 a2 show "\<not> anormale (?cs ! r)" by blast
  qed
  have len: "(1::nat) \<le> 4 \<and> 4 \<le> length ?cs" by simp
  have f: "filter (\<lambda>c. \<not> cellule_vide c) ?cs = [Some ''3,0'', Some ''60'', Some ''0,005'']"
    by (simp add: vide_ex)
  have m: "map valeur_normalisee [Some ''3,0'', Some ''60'', Some ''0,005''] =
             [Finite 3, Finite 60, Finite (5764607523034235 / 1152921504606846976)]"
    by (simp add: val_3_0 val_60 val_0_005)
  have s: "foldl fadd (Finite 0)
             (map valeur_normalisee (filter (\<lambda>c. \<not> cellule_vide c) ?cs)) =
           Finite (8867165453827441 / 140737488355328)"
    by (simp only: f m sum_ex2)
  from mettre_a_jour_total_spec [of ?cs 4] a3 before len s
  have "premiere_ligne_erreur (mettre_a_jour_total ?cs) = Some 4"
    and "total (mettre_a_jour_total ?cs) = Finite (8867165453827441 / 140737488355328)"
    by simp_all
  with a3 a0 a1 a2 show ?thesis by simp
qed

text \<open>
  C6 as stated gives the total 13.005 for the normalised values 3.0, 0.005 and 10.0.
  The sum of these doubles, rounded after each addition, is one unit in the last place
  below the double 13.005, and is not the number 13.005 either.
\<close>

theorem mettre_a_jour_total_spec_counterexample:
  "map valeur_normalisee [Some ''3,0'', Some ''0,005'', Some ''10,0''] =
     [Finite 3, Finite (5764607523034235 / 1152921504606846976), Finite 10] \<and>
   py_float ''3.0'' = Some (Finite 3) \<and>
   py_float ''0.005'' = Some (Finite (5764607523034235 / 1152921504606846976)) \<and>
   py_float ''10.0'' = Some (Finite 10) \<and>
   py_float ''13.005'' = Some (Finite (7321164144244163 / 562949953421312)) \<and>
   total (mettre_a_jour_total [Some ''3,0'', Some ''0,005'', Some ''10,0'']) =
     Finite (3660582072122081 / 281474976710656) \<and>
   (3660582072122081 / 281474976710656 :: rat) \<noteq> 7321164144244163 / 562949953421312 \<and>
   (3660582072122081 / 281474976710656 :: rat) \<noteq> 13005 / 1000"
proof -
  have a: "py_float ''3.0'' = Some (Finite 3)" by code_simp
  have b: "py_float ''0.005'' = Some (Finite (5764607523034235 / 1152921504606846976))"
    by code_simp
  have c: "py_float ''10.0'' = Some (Finite 10)" by code_simp
  have d: "(3660582072122081 / 281474976710656 :: rat) \<noteq> 7321164144244163 / 562949953421312"
    by simp
  have e: "(3660582072122081 / 281474976710656 :: rat) \<noteq> 13005 / 1000"
    by simp
  show ?thesis
    using a b c d e py_float_13_005 total_ex1
    by (simp only: list.map val_3_0 val_0_005 val_10_0 simp_thms)
qed

section \<open>The rounding of the float model\<close>

text \<open>
  The rounding used for \<^const>\<open>py_float\<close> and \<^const>\<open>fadd\<close> is rounding to a nearest
  double: \<^const>\<open>ilog2\<close> is the binary exponent of its argument, and \<^const>\<open>round_pos\<close>
  returns a multiple \<open>n * 2^e\<close> of the unit in the last place with \<open>n \<le> 2^53\<close> and
  \<open>e \<ge> -1074\<close>, at most half a unit away from its argument.
\<close>

lemma pow2_nonneg_exp: "0 \<le> k \<Longrightarrow> pow2 k = 2 ^ nat k"
  by (simp add: pow2_def)

lemma pow2_neg_exp: "0 \<le> k \<Longrightarrow> pow2 (- k) = 1 / 2 ^ nat k"
  by (cases "k = 0") (simp_all add: pow2_def)

lemma pow2_powi: "pow2 e = 2 powi e"
  by (simp add: pow2_def power_int_def inverse_eq_divide power_one_over [symmetric])

lemma pow2_add: "pow2 (a + b) = pow2 a * pow2 b"
  by (simp add: pow2_powi power_int_add)

lemma pow2_mono:
  assumes "a \<le> b"
  shows "pow2 a \<le> pow2 b"
proof -
  have e: "pow2 b = pow2 a * pow2 (b - a)" using pow2_add [of a "b - a"] by simp
  have "1 \<le> pow2 (b - a)" using assms by (simp add: pow2_powi)
  moreover have "0 \<le> pow2 a" by (simp add: pow2_powi)
  ultimately have "pow2 a * 1 \<le> pow2 a * pow2 (b - a)" by (intro mult_left_mono)
  then show ?thesis by (simp add: e)
qed

lemma ilog2_bounds:
  assumes "0 < x"
  shows "pow2 (ilog2 x) \<le> x" and "x < pow2 (ilog2 x + 1)"
proof -
  have "pow2 (ilog2 x) \<le> x \<and> x < pow2 (ilog2 x + 1)"
  proof (cases "1 \<le> x")
    case True
    define n where "n = \<lfloor>x\<rfloor>"
    have n1: "1 \<le> n" using True by (simp add: n_def)
    then have npos: "0 < n" by simp
    have b1: "1 \<le> bitlen n" using npos bitlen_eq_zero_iff [of n] bitlen_nonneg [of n] by linarith
    have il: "ilog2 x = bitlen n - 1" using True by (simp add: ilog2_def n_def)
    from bitlen_bounds [OF npos]
    have lo: "2 ^ nat (bitlen n - 1) \<le> n" and hi: "n < 2 ^ nat (bitlen n)" by simp_all
    have "pow2 (bitlen n - 1) = of_int (2 ^ nat (bitlen n - 1))"
      using b1 by (simp add: pow2_def)
    also have "\<dots> \<le> of_int n" using lo by (simp only: of_int_le_iff)
    also have "\<dots> \<le> x" unfolding n_def by (rule of_int_floor_le)
    finally have A: "pow2 (bitlen n - 1) \<le> x" .
    have "x < of_int (n + 1)" unfolding n_def by linarith
    also have "\<dots> \<le> of_int (2 ^ nat (bitlen n))"
      using hi by (simp only: of_int_le_iff)
    also have "\<dots> = pow2 (bitlen n - 1 + 1)"
      using b1 by (simp add: pow2_def)
    finally have B: "x < pow2 (bitlen n - 1 + 1)" .
    from A B show ?thesis by (simp only: il)
  next
    case False
    then have x1: "x < 1" by simp
    define y where "y = 1 / x"
    have y1: "1 < y" using assms x1 by (simp add: y_def)
    define m where "m = \<lceil>y\<rceil> - 1"
    have my: "of_int m < y" unfolding m_def by linarith
    have ym: "y \<le> of_int (m + 1)" unfolding m_def by simp
    have m1: "1 \<le> m"
    proof -
      have "1 < \<lceil>y\<rceil>" using y1 by (simp add: less_ceiling_iff)
      then show ?thesis by (simp add: m_def)
    qed
    then have mpos: "0 < m" by simp
    define b where "b = bitlen m"
    have b1: "1 \<le> b" using mpos bitlen_eq_zero_iff [of m] bitlen_nonneg [of m]
      unfolding b_def by linarith
    have il: "ilog2 x = - b" using False by (simp add: ilog2_def y_def m_def b_def)
    from bitlen_bounds [OF mpos]
    have lo: "2 ^ nat (b - 1) \<le> m" and hi: "m < 2 ^ nat b" by (simp_all add: b_def)
    have "y \<le> of_int (m + 1)" by (rule ym)
    also have "\<dots> \<le> of_int (2 ^ nat b)" using hi by (simp only: of_int_le_iff)
    finally have yhi: "y \<le> 2 ^ nat b" by simp
    have "(2::rat) ^ nat (b - 1) = of_int (2 ^ nat (b - 1))" by simp
    also have "\<dots> \<le> of_int m" using lo by (simp only: of_int_le_iff)
    also have "\<dots> < y" by (rule my)
    finally have ylo: "2 ^ nat (b - 1) < y" .
    have xy: "x = 1 / y" using assms by (simp add: y_def)
    have ypos: "0 < y" using y1 by simp
    have A: "pow2 (- b) \<le> x"
    proof -
      have "1 / 2 ^ nat b \<le> 1 / y" using yhi ypos by (simp add: frac_le)
      then show ?thesis using b1 by (simp add: pow2_neg_exp xy)
    qed
    have B: "x < pow2 (- b + 1)"
    proof -
      have "1 / y < 1 / 2 ^ nat (b - 1)" using ylo by (simp add: frac_less2)
      moreover have "pow2 (- b + 1) = 1 / 2 ^ nat (b - 1)"
        using pow2_neg_exp [of "b - 1"] b1 by simp
      ultimately show ?thesis by (simp add: xy)
    qed
    from A B show ?thesis by (simp only: il)
  qed
  then show "pow2 (ilog2 x) \<le> x" and "x < pow2 (ilog2 x + 1)" by simp_all
qed

lemma round_half_even_nearest: "\<bar>of_int (round_half_even x) - x\<bar> \<le> 1 / 2"
proof -
  define r where "r = x - of_int \<lfloor>x\<rfloor>"
  have r0: "0 \<le> r" and r1: "r < 1" unfolding r_def by linarith+
  have x: "x = of_int \<lfloor>x\<rfloor> + r" by (simp add: r_def)
  consider "r < 1 / 2" | "1 / 2 < r" | "r = 1 / 2" by linarith
  then show ?thesis
  proof cases
    case 1
    then have "round_half_even x = \<lfloor>x\<rfloor>"
      by (simp add: round_half_even_def Let_def r_def)
    then have "of_int (round_half_even x) - x = - r" by (simp add: r_def)
    with r0 1 show ?thesis by simp
  next
    case 2
    then have "round_half_even x = \<lfloor>x\<rfloor> + 1"
      by (simp add: round_half_even_def Let_def r_def)
    then have "of_int (round_half_even x) - x = 1 - r" by (simp add: r_def)
    with r1 2 show ?thesis by simp
  next
    case 3
    from round_half_even_cases [of x] show ?thesis
    proof
      assume "round_half_even x = \<lfloor>x\<rfloor>"
      then have "of_int (round_half_even x) - x = - r" by (simp add: r_def)
      with 3 show ?thesis by simp
    next
      assume "round_half_even x = \<lfloor>x\<rfloor> + 1"
      then have "of_int (round_half_even x) - x = 1 - r" by (simp add: r_def)
      with 3 show ?thesis by simp
    qed
  qed
qed

lemma round_pos_nearest:
  assumes "0 < x"
  shows "\<exists>n e. round_pos x = of_int n * pow2 e \<and> - 1074 \<le> e \<and> 0 \<le> n \<and> n \<le> 2 ^ 53 \<and>
           \<bar>round_pos x - x\<bar> \<le> pow2 e / 2"
proof -
  define e where "e = max (ilog2 x - 52) (- 1074)"
  define n where "n = round_half_even (x / pow2 e)"
  have pe: "0 < pow2 e" by (simp add: pow2_def)
  have rp: "round_pos x = of_int n * pow2 e"
    by (simp add: round_pos_def e_def n_def Let_def)
  have q0: "0 \<le> x / pow2 e" using assms pe by simp
  have n0: "0 \<le> n"
  proof -
    have "0 \<le> \<lfloor>x / pow2 e\<rfloor>" using q0 by simp
    then show ?thesis by (auto simp: n_def round_half_even_def Let_def)
  qed
  have near: "\<bar>of_int n - x / pow2 e\<bar> \<le> 1 / 2"
    unfolding n_def by (rule round_half_even_nearest)
  have "round_pos x - x = (of_int n - x / pow2 e) * pow2 e"
    using pe by (simp add: rp field_simps)
  then have "\<bar>round_pos x - x\<bar> = \<bar>of_int n - x / pow2 e\<bar> * \<bar>pow2 e\<bar>"
    by (simp only: abs_mult)
  also have "\<bar>pow2 e\<bar> = pow2 e" using pe by simp
  finally have "\<bar>round_pos x - x\<bar> = \<bar>of_int n - x / pow2 e\<bar> * pow2 e" .
  also have "\<dots> \<le> (1 / 2) * pow2 e"
    using near pe by (intro mult_right_mono) simp_all
  finally have err: "\<bar>round_pos x - x\<bar> \<le> pow2 e / 2" by simp
  have ge: "ilog2 x - 52 \<le> e" by (simp add: e_def)
  have "x < pow2 (ilog2 x + 1)" by (rule ilog2_bounds(2) [OF assms])
  also have "pow2 (ilog2 x + 1) \<le> pow2 (53 + e)"
    using ge by (intro pow2_mono) simp
  also have "pow2 (53 + e) = 2 ^ 53 * pow2 e"
    by (simp only: pow2_add) (simp add: pow2_def)
  finally have "x / pow2 e < 2 ^ 53" using pe by (simp add: field_simps)
  then have "\<lfloor>x / pow2 e\<rfloor> < 2 ^ 53" by (simp add: floor_less_iff)
  then have n53: "n \<le> 2 ^ 53" by (auto simp: n_def round_half_even_def Let_def)
  have "- 1074 \<le> e" by (simp add: e_def)
  with rp n0 n53 err show ?thesis by blast
qed

end
